theory Spec2Isabelle
  imports Main
begin

section \<open>The bulk downloader of dops (package bulkdownload)\<close>

text \<open>
  The development embeds the Go functions \<open>readLines\<close>, \<open>downloadFile\<close>,
  \<open>downloadMultipleFiles\<close> and the \<open>Action\<close> of the \<open>bulkdownload\<close> command.
  The main goroutine and the goroutines started by the fan-out loop are threads of an
  interleaving transition system: \<open>fire\<close> performs one step of one thread, \<open>exec\<close> runs a
  schedule. Paths are Unix paths (the separator is \<open>/\<close>, \<open>filepath.FromSlash\<close> is the
  identity).
\<close>

subsection \<open>Library functions the code calls\<close>

text \<open>
  \<open>filepath.Base\<close> of the Go standard library: the empty path gives \<open>.\<close>, trailing
  separators are removed, then the text after the last separator is taken, and a path of
  separators only gives \<open>/\<close>.
\<close>

definition isPathSeparator :: "char \<Rightarrow> bool" where
  "isPathSeparator c = (c = CHR ''/'')"

definition stripTrailing :: "string \<Rightarrow> string" where
  "stripTrailing path = rev (dropWhile isPathSeparator (rev path))"

definition lastElement :: "string \<Rightarrow> string" where
  "lastElement path = rev (takeWhile (\<lambda>c. \<not> isPathSeparator c) (rev path))"

definition Base :: "string \<Rightarrow> string" where
  "Base path =
     (if path = [] then ''.''
      else let p = lastElement (stripTrailing path)
           in if p = [] then ''/'' else p)"

definition FromSlash :: "string \<Rightarrow> string" where
  "FromSlash path = path"

definition PathSeparator :: char where
  "PathSeparator = CHR ''/''"

text \<open>
  \<open>bufio.Scanner\<close> with its default split function \<open>ScanLines\<close>: a line ends at a
  newline, one carriage return before the newline is dropped, a last line without
  newline is returned when it is not empty, and a line that does not fit the buffer of
  \<open>MaxScanTokenSize\<close> bytes stops the scan with \<open>ErrTooLong\<close>.
\<close>

datatype error = Error string

definition ErrTooLong :: error where
  "ErrTooLong = Error ''bufio.Scanner: token too long''"

definition MaxScanTokenSize :: nat where
  "MaxScanTokenSize = 65536"

definition dropCR :: "string \<Rightarrow> string" where
  "dropCR l = (if l \<noteq> [] \<and> last l = CHR 0x0D then butlast l else l)"

fun scan :: "string \<Rightarrow> string \<Rightarrow> string list \<times> error option" where
  "scan [] acc =
     (if acc = [] then ([], None)
      else if MaxScanTokenSize \<le> length acc then ([], Some ErrTooLong)
      else ([dropCR (rev acc)], None))"
| "scan (c # cs) acc =
     (if c = CHR 0x0A
      then (if MaxScanTokenSize \<le> length acc then ([], Some ErrTooLong)
            else (case scan cs [] of (ls, e) \<Rightarrow> (dropCR (rev acc) # ls, e)))
      else scan cs (c # acc))"

definition scanLines :: "string \<Rightarrow> string list \<times> error option" where
  "scanLines data = scan data []"

subsection \<open>The outside world\<close>

text \<open>
  What the network and the file system answer during one call of \<open>downloadFile\<close>:
  the result of \<open>http.Get\<close>, of \<open>os.MkdirAll\<close>, of \<open>os.Create\<close> and of \<open>io.Copy\<close>
  (which, when it fails, has written some prefix of the body).
\<close>

record response =
  StatusCode :: int
  Body :: string

record io =
  get :: "error + response"
  mkdirAll :: "error option"
  create :: "error option"
  copy :: "(nat \<times> error) option"

definition StatusOK :: int where
  "StatusOK = 200"

text \<open>What the printers of the terminal library are asked to print.\<close>

datatype notice =
    InfoNotice nat
  | ErrorNotice string int
  | FatalNotice error
  | SuccessNotice string

text \<open>
  The run's parameters and environment: the three flags, the answer of the file system
  for the input file (an error of \<open>os.Open\<close>, or the bytes read and the error, if any,
  that ended the reading), the files present at the start, the answers of the outside
  world to the i-th goroutine, whether the call of \<open>downloadFile\<close> of the i-th
  goroutine never returns (\<open>http.Get\<close> and \<open>io.Copy\<close> have no timeout: a connection
  that hangs keeps the goroutine in the call for ever), and whether the library's
  \<open>Fatal\<close> printer terminates the program after printing (the library is not part of
  the repository; its documentation says that it does).
\<close>

record config =
  inputFile :: string
  outputDir :: string
  concurrent :: int
  openFile :: "string \<Rightarrow> error + (string \<times> error option)"
  initialFiles :: "string \<rightharpoonup> string"
  answers :: "nat \<Rightarrow> io"
  hangs :: "nat \<Rightarrow> bool"
  fatalExits :: bool

subsection \<open>Program state\<close>

datatype mpc = MStart | MMake | MLoop | MSpawn | MWait | MReturned "error option"

datatype tpc = TStart | TDownload | TReport | TRelease | TDone

text \<open>
  A goroutine of the fan-out loop: its URL, its position, and the value that
  \<open>downloadFile\<close> returned to it (\<open>None\<close> until the call has returned).
\<close>

record task =
  url :: string
  pc :: tpc
  ret :: "error option option"

datatype halt = FatalExit | Panic

text \<open>
  The state of the process: the files and their contents; the directories that
  \<open>os.MkdirAll\<close> has made (each stands for itself and the parents made along with
  it); what the printers were given, in order; the counter of the package's wait group
  \<open>wg\<close>; title, count and total of the progress bar; the position of the main
  goroutine; the URLs the range loop has not reached yet; the number of tokens in the
  channel \<open>guard\<close>; the goroutines started so far, in the order of their start; and
  whether the process has ended by the \<open>Fatal\<close> printer or a panic.
\<close>

record state =
  files :: "string \<rightharpoonup> string"
  dirs :: "string set"
  sink :: "notice list"
  wg :: int
  pbTitle :: string
  pbCurrent :: nat
  pbTotal :: nat
  main :: mpc
  pending :: "string list"
  guard :: nat
  tasks :: "task list"
  halted :: "halt option"

definition initial :: "config \<Rightarrow> state" where
  "initial cfg =
     \<lparr>files = initialFiles cfg, dirs = {}, sink = [], wg = 0,
      pbTitle = [], pbCurrent = 0, pbTotal = 0,
      main = MStart, pending = [], guard = 0, tasks = [], halted = None\<rparr>"

subsection \<open>readLines and downloadFile\<close>

definition readLines :: "config \<Rightarrow> string \<Rightarrow> string list \<times> error option" where
  "readLines cfg path =
     (case openFile cfg path of
        Inl err \<Rightarrow> ([], Some err)
      | Inr (data, readErr) \<Rightarrow>
          (case scanLines data of
             (lines, Some err) \<Rightarrow> (lines, Some err)
           | (lines, None) \<Rightarrow> (lines, readErr)))"

text \<open>
  \<open>downloadFile\<close>, in the order of the source: GET, the diagnostic for a status other
  than 200, the file name, \<open>MkdirAll\<close> when the directory is not empty, \<open>Create\<close>
  (which truncates), \<open>Copy\<close>, and \<open>wg.Done()\<close> on the path that returns \<open>nil\<close> only.
\<close>

definition downloadFile :: "io \<Rightarrow> string \<Rightarrow> string \<Rightarrow> state \<Rightarrow> error option \<times> state" where
  "downloadFile w URL outDir s =
     (case get w of
        Inl err \<Rightarrow> (Some err, s)
      | Inr response \<Rightarrow>
          let s1 = (if StatusCode response \<noteq> StatusOK
                    then s\<lparr>sink := sink s @ [ErrorNotice URL (StatusCode response)]\<rparr>
                    else s);
              file = Base URL
          in (case (if outDir \<noteq> [] then mkdirAll w else None) of
                Some err \<Rightarrow> (Some err, s1)
              | None \<Rightarrow>
                  let s2 = (if outDir \<noteq> [] then s1\<lparr>dirs := insert outDir (dirs s1)\<rparr> else s1);
                      dir = (if outDir \<noteq> [] then outDir @ [PathSeparator] else outDir);
                      name = FromSlash dir @ file
                  in (case create w of
                        Some err \<Rightarrow> (Some err, s2)
                      | None \<Rightarrow>
                          (case copy w of
                             Some (k, err) \<Rightarrow>
                               (Some err,
                                s2\<lparr>files := (files s2)(name \<mapsto> take k (Body response))\<rparr>)
                           | None \<Rightarrow>
                               (None, s2\<lparr>files := (files s2)(name \<mapsto> Body response),
                                         wg := wg s2 - 1\<rparr>)))))"

subsection \<open>Steps of the main goroutine\<close>

text \<open>
  \<open>MStart\<close>: the Action up to the call of \<open>downloadMultipleFiles\<close>.
  \<open>MMake\<close>: \<open>make(chan struct{}, concurrentDownloads)\<close>, which panics on a negative size.
  \<open>MLoop\<close>: the head of the range loop and the send \<open>guard <- struct{}{}\<close>, which needs a
  free slot of the buffer (a channel of capacity 0 has none: its send completes only
  together with a receive, see \<open>taskStep\<close>).
  \<open>MSpawn\<close>: the \<open>go\<close> statement. \<open>MWait\<close>: \<open>wg.Wait()\<close>.
\<close>

definition mainStep :: "config \<Rightarrow> state \<Rightarrow> state option" where
  "mainStep cfg s =
     (case main s of
        MStart \<Rightarrow>
          (case readLines cfg (inputFile cfg) of
             (urls, Some err) \<Rightarrow> Some (s\<lparr>main := MReturned (Some err)\<rparr>)
           | (urls, None) \<Rightarrow>
               Some (s\<lparr>wg := wg s + int (length urls),
                       sink := sink s @ [InfoNotice (length urls)],
                       pbTitle := ''Downloading'', pbCurrent := 0, pbTotal := length urls,
                       pending := urls, main := MMake\<rparr>))
      | MMake \<Rightarrow>
          (if concurrent cfg < 0 then Some (s\<lparr>halted := Some Panic\<rparr>)
           else Some (s\<lparr>guard := 0, main := MLoop\<rparr>))
      | MLoop \<Rightarrow>
          (if pending s = [] then Some (s\<lparr>main := MWait\<rparr>)
           else if int (guard s) < concurrent cfg
                then Some (s\<lparr>guard := Suc (guard s), main := MSpawn\<rparr>)
                else None)
      | MSpawn \<Rightarrow>
          (case pending s of
             [] \<Rightarrow> None
           | URL # rest \<Rightarrow>
               Some (s\<lparr>tasks := tasks s @ [\<lparr>url = URL, pc = TStart, ret = None\<rparr>],
                       pending := rest, main := MLoop\<rparr>))
      | MWait \<Rightarrow> (if wg s = 0 then Some (s\<lparr>main := MReturned None\<rparr>) else None)
      | MReturned r \<Rightarrow> None)"

subsection \<open>Steps of a goroutine\<close>

text \<open>
  \<open>TStart\<close>: \<open>pb.Title = filepath.Base(URL)\<close>. \<open>TDownload\<close>: the call of
  \<open>downloadFile\<close>, taken as one step (\<open>wg.Done()\<close> panics when the counter becomes
  negative); a call that never returns is a goroutine that has no step at this
  position, and what such a call does before it hangs is left out.
  \<open>TReport\<close>: the \<open>Fatal\<close> printer when the call returned an error, then the \<open>Success\<close>
  printer and \<open>pb.Increment()\<close>. \<open>TRelease\<close>: the receive \<open><-guard\<close>; on a channel of
  capacity 0 it completes together with the send of the main goroutine.
\<close>

definition setTask :: "state \<Rightarrow> nat \<Rightarrow> task \<Rightarrow> state" where
  "setTask s i t = s\<lparr>tasks := (tasks s)[i := t]\<rparr>"

definition succeed :: "state \<Rightarrow> nat \<Rightarrow> task \<Rightarrow> state" where
  "succeed s i t =
     setTask (s\<lparr>sink := sink s @ [SuccessNotice (url t)], pbCurrent := Suc (pbCurrent s)\<rparr>)
       i (t\<lparr>pc := TRelease\<rparr>)"

definition taskStep :: "config \<Rightarrow> state \<Rightarrow> nat \<Rightarrow> state option" where
  "taskStep cfg s i =
     (if length (tasks s) \<le> i then None
      else
        let t = tasks s ! i in
        case pc t of
          TStart \<Rightarrow> Some (setTask (s\<lparr>pbTitle := Base (url t)\<rparr>) i (t\<lparr>pc := TDownload\<rparr>))
        | TDownload \<Rightarrow>
            (if hangs cfg i then None
             else
               case downloadFile (answers cfg i) (url t) (outputDir cfg) s of
                 (err, s') \<Rightarrow>
                   let s'' = setTask s' i (t\<lparr>pc := TReport, ret := Some err\<rparr>)
                   in Some (if wg s'' < 0 then s''\<lparr>halted := Some Panic\<rparr> else s''))
        | TReport \<Rightarrow>
            (case ret t of
               None \<Rightarrow> None
             | Some None \<Rightarrow> Some (succeed s i t)
             | Some (Some err) \<Rightarrow>
                 let s1 = s\<lparr>sink := sink s @ [FatalNotice err]\<rparr>
                 in if fatalExits cfg then Some (s1\<lparr>halted := Some FatalExit\<rparr>)
                    else Some (succeed s1 i t))
        | TRelease \<Rightarrow>
            (if concurrent cfg = 0
             then (if main s = MLoop \<and> pending s \<noteq> []
                   then Some (setTask (s\<lparr>main := MSpawn\<rparr>) i (t\<lparr>pc := TDone\<rparr>))
                   else None)
             else if 0 < guard s
                  then Some (setTask (s\<lparr>guard := guard s - 1\<rparr>) i (t\<lparr>pc := TDone\<rparr>))
                  else None)
        | TDone \<Rightarrow> None)"

subsection \<open>Schedules\<close>

datatype tid = Main | Task nat

definition fire :: "config \<Rightarrow> state \<Rightarrow> tid \<Rightarrow> state option" where
  "fire cfg s a =
     (if halted s \<noteq> None then None
      else case a of Main \<Rightarrow> mainStep cfg s | Task i \<Rightarrow> taskStep cfg s i)"

fun exec :: "config \<Rightarrow> state \<Rightarrow> tid list \<Rightarrow> state option" where
  "exec cfg s [] = Some s"
| "exec cfg s (a # as) =
     (case fire cfg s a of None \<Rightarrow> None | Some s' \<Rightarrow> exec cfg s' as)"

text \<open>The goroutines that were started and have not yet given their permit back.\<close>

definition inFlight :: "state \<Rightarrow> nat" where
  "inFlight s = length (filter (\<lambda>t. pc t \<noteq> TDone) (tasks s))"

text \<open>The goroutines whose call of \<open>downloadFile\<close> returned \<open>nil\<close>.\<close>

definition succeeded :: "state \<Rightarrow> nat" where
  "succeeded s = length (filter (\<lambda>t. ret t = Some None) (tasks s))"

text \<open>The goroutines that are past \<open>pb.Increment()\<close>.\<close>

definition advanced :: "state \<Rightarrow> nat" where
  "advanced s = length (filter (\<lambda>t. pc t = TRelease \<or> pc t = TDone) (tasks s))"

subsection \<open>Invariants of the reachable states\<close>

definition urls :: "config \<Rightarrow> string list" where
  "urls cfg = fst (readLines cfg (inputFile cfg))"

definition inputError :: "config \<Rightarrow> error option" where
  "inputError cfg = snd (readLines cfg (inputFile cfg))"

text \<open>The main goroutine is past the check of the error of \<open>readLines\<close>.\<close>

fun started :: "mpc \<Rightarrow> bool" where
  "started MStart = False"
| "started (MReturned (Some e)) = False"
| "started m = True"

text \<open>
  Every token in the channel belongs to a goroutine in flight, or to the main goroutine
  between its send and its \<open>go\<close> statement, and the channel never holds more tokens
  than its capacity.
\<close>

definition invGuard :: "config \<Rightarrow> state \<Rightarrow> bool" where
  "invGuard cfg s \<longleftrightarrow>
     guard s = inFlight s + (if main s = MSpawn then 1 else 0)
     \<and> int (guard s) \<le> max 0 (concurrent cfg)
     \<and> (\<not> started (main s) \<or> main s = MMake \<longrightarrow> tasks s = [] \<and> guard s = 0)"

text \<open>A goroutine holds a returned value exactly when it is past the call.\<close>

definition invRet :: "state \<Rightarrow> bool" where
  "invRet s \<longleftrightarrow> (\<forall>t \<in> set (tasks s). (pc t = TStart \<or> pc t = TDownload) = (ret t = None))"

text \<open>
  The bookkeeping of the Action: nothing happens before the list is read; afterwards
  the goroutines and the rest of the loop make up the list, and the counter of the wait
  group is the number of URLs minus the number of calls that returned \<open>nil\<close>.
\<close>

definition invBook :: "config \<Rightarrow> state \<Rightarrow> bool" where
  "invBook cfg s \<longleftrightarrow>
     (\<not> started (main s) \<longrightarrow>
        tasks s = [] \<and> pending s = [] \<and> sink s = [] \<and> wg s = 0
        \<and> files s = initialFiles cfg \<and> dirs s = {} \<and> halted s = None)
     \<and> (\<forall>e. main s = MReturned (Some e) \<longrightarrow> inputError cfg = Some e)
     \<and> (started (main s) \<longrightarrow>
          inputError cfg = None
          \<and> map url (tasks s) @ pending s = urls cfg
          \<and> wg s = int (length (urls cfg)) - int (succeeded s))
     \<and> (main s = MSpawn \<longrightarrow> pending s \<noteq> [])
     \<and> (main s = MWait \<or> main s = MReturned None \<longrightarrow> pending s = [])
     \<and> (main s = MReturned None \<longrightarrow> wg s = 0)"

text \<open>
  The progress bar counts the goroutines that are past \<open>pb.Increment()\<close>; where the
  \<open>Fatal\<close> printer terminates the program, these are goroutines whose call returned
  \<open>nil\<close>.
\<close>

definition invProgress :: "config \<Rightarrow> state \<Rightarrow> bool" where
  "invProgress cfg s \<longleftrightarrow>
     pbCurrent s = advanced s
     \<and> (main s = MStart \<longrightarrow> tasks s = [])
     \<and> (fatalExits cfg \<longrightarrow>
          (\<forall>t \<in> set (tasks s). pc t = TRelease \<or> pc t = TDone \<longrightarrow> ret t = Some None))"

definition inv :: "config \<Rightarrow> state \<Rightarrow> bool" where
  "inv cfg s \<longleftrightarrow> invGuard cfg s \<and> invRet s \<and> invBook cfg s \<and> invProgress cfg s"

subsection \<open>Observing runs\<close>

text \<open>What a schedule, run from the initial state, makes of an observable of the state.\<close>

definition observe :: "(state \<Rightarrow> 'a) \<Rightarrow> config \<Rightarrow> tid list \<Rightarrow> 'a option" where
  "observe f cfg sched = map_option f (exec cfg (initial cfg) sched)"

definition fileAt :: "string \<Rightarrow> state \<Rightarrow> string option" where
  "fileAt name s = files s name"

text \<open>No goroutine can take a step.\<close>

definition stuck :: "config \<Rightarrow> state \<Rightarrow> bool" where
  "stuck cfg s \<longleftrightarrow>
     fire cfg s Main = None
     \<and> list_all (\<lambda>i. fire cfg s (Task i) = None) [0..<length (tasks s)]"

text \<open>
  The file name in the words of the specification: the text after the last \<open>/\<close> of the
  URL (the whole URL when it has none).
\<close>

fun afterLastSlash :: "string \<Rightarrow> string" where
  "afterLastSlash [] = []"
| "afterLastSlash (c # cs) =
     (if CHR ''/'' \<in> set cs then afterLastSlash cs
      else if c = CHR ''/'' then cs else c # cs)"

text \<open>The destination of a URL's file, as \<open>downloadFile\<close> builds it.\<close>

definition destination :: "string \<Rightarrow> string \<Rightarrow> string" where
  "destination outDir URL =
     FromSlash (if outDir \<noteq> [] then outDir @ [PathSeparator] else outDir) @ Base URL"

subsection \<open>Example runs\<close>

definition okIO :: "int \<Rightarrow> string \<Rightarrow> io" where
  "okIO code content =
     \<lparr>get = Inr \<lparr>StatusCode = code, Body = content\<rparr>,
      mkdirAll = None, create = None, copy = None\<rparr>"

definition connRefused :: error where
  "connRefused = Error ''connection refused''"

definition refusedIO :: io where
  "refusedIO = \<lparr>get = Inl connRefused, mkdirAll = None, create = None, copy = None\<rparr>"

text \<open>An input file that holds the given lines, each ended by a newline.\<close>

definition listFile :: "string list \<Rightarrow> string" where
  "listFile ls = concat (map (\<lambda>l. l @ [CHR 0x0A]) ls)"

definition exampleConfig :: "string \<Rightarrow> int \<Rightarrow> (nat \<Rightarrow> io) \<Rightarrow> bool \<Rightarrow> config" where
  "exampleConfig content n ans f =
     \<lparr>inputFile = ''urls.txt'', outputDir = ''out'', concurrent = n,
      openFile = (\<lambda>path. Inr (content, None)), initialFiles = Map.empty,
      answers = ans, hangs = (\<lambda>i. False), fatalExits = f\<rparr>"

definition threeUrls :: "string list" where
  "threeUrls = [''http://h/a'', ''http://h/b'', ''http://h/c'']"

definition allOk :: "nat \<Rightarrow> io" where
  "allOk i = okIO 200 ''data''"

definition secondFails :: "nat \<Rightarrow> io" where
  "secondFails i = (if i = 1 then refusedIO else okIO 200 ''data'')"

definition allFail :: "nat \<Rightarrow> io" where
  "allFail i = refusedIO"

definition twoUrls :: "string list" where
  "twoUrls = [''http://h/a'', ''http://h/b'']"

definition oneUrl :: "string list" where
  "oneUrl = [''http://h/a'']"

definition noSuchFile :: error where
  "noSuchFile = Error ''open urls.txt: no such file or directory''"

definition missingInput :: config where
  "missingInput = (exampleConfig [] 3 allOk True)\<lparr>openFile := (\<lambda>path. Inl noSuchFile)\<rparr>"



text \<open>Two URLs, one download at a time, and connections that hang.\<close>

definition hungConfig :: config where
  "hungConfig = (exampleConfig (listFile twoUrls) 1 allOk True)\<lparr>hangs := (\<lambda>i. True)\<rparr>"

definition staleFiles :: state where
  "staleFiles = (initial missingInput)\<lparr>files := [''out/file.zip'' \<mapsto> ''old'']\<rparr>"

lemmas model_defs =
  fire_def mainStep_def taskStep_def readLines_def scanLines_def dropCR_def
  MaxScanTokenSize_def downloadFile_def setTask_def succeed_def Base_def lastElement_def
  stripTrailing_def isPathSeparator_def FromSlash_def PathSeparator_def StatusOK_def
  initial_def observe_def fileAt_def stuck_def

lemmas example_defs =
  exampleConfig_def listFile_def threeUrls_def allOk_def secondFails_def allFail_def
  okIO_def refusedIO_def connRefused_def

section \<open>Properties of the steps\<close>

lemma exec_invariant:
  assumes "exec cfg s0 sched = Some s" and "P s0"
    and "\<And>s a s'. P s \<Longrightarrow> fire cfg s a = Some s' \<Longrightarrow> P s'"
  shows "P s"
  using assms by (induction sched arbitrary: s0) (auto split: option.splits)

lemma count_update:
  "i < length xs \<Longrightarrow>
   length (filter P (xs[i := y])) + (if P (xs ! i) then 1 else 0)
     = length (filter P xs) + (if P y then 1 else 0)"
proof (induction xs arbitrary: i)
  case Nil
  then show ?case by simp
next
  case (Cons x xs)
  then show ?case by (cases i) auto
qed

lemma downloadFile_frame':
  "tasks (snd (downloadFile w u d s)) = tasks s
   \<and> guard (snd (downloadFile w u d s)) = guard s
   \<and> main (snd (downloadFile w u d s)) = main s
   \<and> pending (snd (downloadFile w u d s)) = pending s
   \<and> halted (snd (downloadFile w u d s)) = halted s
   \<and> pbCurrent (snd (downloadFile w u d s)) = pbCurrent s
   \<and> pbTitle (snd (downloadFile w u d s)) = pbTitle s
   \<and> pbTotal (snd (downloadFile w u d s)) = pbTotal s
   \<and> wg (snd (downloadFile w u d s))
       = (if fst (downloadFile w u d s) = None then wg s - 1 else wg s)"
  by (simp add: downloadFile_def Let_def split: sum.split option.split prod.split)

lemma downloadFile_frame:
  assumes "downloadFile w u d s = (e, s')"
  shows "tasks s' = tasks s" "guard s' = guard s" "main s' = main s" "pending s' = pending s"
    "halted s' = halted s" "pbCurrent s' = pbCurrent s" "pbTitle s' = pbTitle s"
    "pbTotal s' = pbTotal s" "wg s' = (if e = None then wg s - 1 else wg s)"
  using downloadFile_frame' [of w u d s] assms by simp_all


lemma count_update_same:
  "i < length xs \<Longrightarrow> P (xs ! i) = P y \<Longrightarrow> length (filter P (xs[i := y])) = length (filter P xs)"
  using count_update [of i xs P y] by (simp split: if_splits)

lemma count_update_drop:
  "i < length xs \<Longrightarrow> P (xs ! i) \<Longrightarrow> \<not> P y \<Longrightarrow> Suc (length (filter P (xs[i := y]))) = length (filter P xs)"
  using count_update [of i xs P y] by simp

lemma count_update_add:
  "i < length xs \<Longrightarrow> \<not> P (xs ! i) \<Longrightarrow> P y \<Longrightarrow> length (filter P (xs[i := y])) = Suc (length (filter P xs))"
  using count_update [of i xs P y] by simp

lemma count_pos: "i < length xs \<Longrightarrow> P (xs ! i) \<Longrightarrow> 0 < length (filter P xs)"
  by (metis filter_empty_conv length_greater_0_conv nth_mem)

lemma setTask_sel [simp]:
  "tasks (setTask s i t) = (tasks s)[i := t]"
  "guard (setTask s i t) = guard s"
  "main (setTask s i t) = main s"
  "pending (setTask s i t) = pending s"
  "halted (setTask s i t) = halted s"
  "wg (setTask s i t) = wg s"
  "sink (setTask s i t) = sink s"
  "files (setTask s i t) = files s"
  "dirs (setTask s i t) = dirs s"
  "pbCurrent (setTask s i t) = pbCurrent s"
  "pbTitle (setTask s i t) = pbTitle s"
  "pbTotal (setTask s i t) = pbTotal s"
  by (simp_all add: setTask_def)

lemma succeed_sel [simp]:
  "tasks (succeed s i t) = (tasks s)[i := t\<lparr>pc := TRelease\<rparr>]"
  "guard (succeed s i t) = guard s"
  "main (succeed s i t) = main s"
  "pending (succeed s i t) = pending s"
  "halted (succeed s i t) = halted s"
  "wg (succeed s i t) = wg s"
  "sink (succeed s i t) = sink s @ [SuccessNotice (url t)]"
  "files (succeed s i t) = files s"
  "dirs (succeed s i t) = dirs s"
  "pbCurrent (succeed s i t) = Suc (pbCurrent s)"
  "pbTitle (succeed s i t) = pbTitle s"
  "pbTotal (succeed s i t) = pbTotal s"
  by (simp_all add: succeed_def)

lemma taskStep_index: "taskStep cfg s i = Some s' \<Longrightarrow> i < length (tasks s)"
  by (simp add: taskStep_def split: if_splits)

lemma taskStep_TStart:
  "i < length (tasks s) \<Longrightarrow> pc (tasks s ! i) = TStart \<Longrightarrow>
   taskStep cfg s i
     = Some (setTask (s\<lparr>pbTitle := Base (url (tasks s ! i))\<rparr>) i ((tasks s ! i)\<lparr>pc := TDownload\<rparr>))"
  by (simp add: taskStep_def Let_def)

lemma taskStep_TDownload:
  "i < length (tasks s) \<Longrightarrow> pc (tasks s ! i) = TDownload \<Longrightarrow>
   downloadFile (answers cfg i) (url (tasks s ! i)) (outputDir cfg) s = (e, s1) \<Longrightarrow>
   taskStep cfg s i
     = (if hangs cfg i then None
        else Some (if wg s1 < 0
             then (setTask s1 i ((tasks s ! i)\<lparr>pc := TReport, ret := Some e\<rparr>))\<lparr>halted := Some Panic\<rparr>
             else setTask s1 i ((tasks s ! i)\<lparr>pc := TReport, ret := Some e\<rparr>)))"
  by (simp add: taskStep_def Let_def)

lemma taskStep_TReport:
  "i < length (tasks s) \<Longrightarrow> pc (tasks s ! i) = TReport \<Longrightarrow>
   taskStep cfg s i
     = (case ret (tasks s ! i) of
          None \<Rightarrow> None
        | Some None \<Rightarrow> Some (succeed s i (tasks s ! i))
        | Some (Some err) \<Rightarrow>
            if fatalExits cfg
            then Some (s\<lparr>sink := sink s @ [FatalNotice err], halted := Some FatalExit\<rparr>)
            else Some (succeed (s\<lparr>sink := sink s @ [FatalNotice err]\<rparr>) i (tasks s ! i)))"
  by (simp add: taskStep_def Let_def split: option.split)

lemma taskStep_TRelease:
  "i < length (tasks s) \<Longrightarrow> pc (tasks s ! i) = TRelease \<Longrightarrow>
   taskStep cfg s i
     = (if concurrent cfg = 0
        then (if main s = MLoop \<and> pending s \<noteq> []
              then Some (setTask (s\<lparr>main := MSpawn\<rparr>) i ((tasks s ! i)\<lparr>pc := TDone\<rparr>))
              else None)
        else if 0 < guard s
             then Some (setTask (s\<lparr>guard := guard s - 1\<rparr>) i ((tasks s ! i)\<lparr>pc := TDone\<rparr>))
             else None)"
  by (simp add: taskStep_def Let_def)

lemma taskStep_TDone:
  "pc (tasks s ! i) = TDone \<Longrightarrow> taskStep cfg s i = None"
  by (simp add: taskStep_def Let_def)


subsection \<open>The invariants hold in every reachable state\<close>

lemma inv_initial: "inv cfg (initial cfg)"
  by (simp add: inv_def invGuard_def invRet_def invBook_def invProgress_def initial_def
      inFlight_def advanced_def succeeded_def)

lemma mainStep_MStart:
  "main s = MStart \<Longrightarrow>
   mainStep cfg s
     = (case inputError cfg of
          Some err \<Rightarrow> Some (s\<lparr>main := MReturned (Some err)\<rparr>)
        | None \<Rightarrow>
            Some (s\<lparr>wg := wg s + int (length (urls cfg)),
                    sink := sink s @ [InfoNotice (length (urls cfg))],
                    pbTitle := ''Downloading'', pbCurrent := 0, pbTotal := length (urls cfg),
                    pending := urls cfg, main := MMake\<rparr>))"
  by (simp add: mainStep_def inputError_def urls_def split: prod.split option.split)

lemma mainStep_MSpawn:
  "main s = MSpawn \<Longrightarrow> pending s = URL # rest \<Longrightarrow>
   mainStep cfg s
     = Some (s\<lparr>tasks := tasks s @ [\<lparr>url = URL, pc = TStart, ret = None\<rparr>],
               pending := rest, main := MLoop\<rparr>)"
  by (simp add: mainStep_def)

lemma invGuard_main:
  assumes "invGuard cfg s" "mainStep cfg s = Some s'"
  shows "invGuard cfg s'"
proof (cases "main s")
  case MStart
  with assms show ?thesis
    by (cases "inputError cfg") (auto simp: mainStep_MStart invGuard_def inFlight_def)
next
  case MMake
  with assms show ?thesis
    by (auto simp: mainStep_def invGuard_def inFlight_def split: if_splits)
next
  case MLoop
  with assms show ?thesis
    by (auto simp: mainStep_def invGuard_def inFlight_def split: if_splits)
next
  case MSpawn
  with assms obtain URL rest where p: "pending s = URL # rest"
    by (cases "pending s") (auto simp: mainStep_def)
  with assms MSpawn show ?thesis
    by (auto simp: mainStep_MSpawn invGuard_def inFlight_def)
next
  case MWait
  with assms show ?thesis
    by (auto simp: mainStep_def invGuard_def inFlight_def split: if_splits)
next
  case (MReturned r)
  with assms show ?thesis by (simp add: mainStep_def)
qed

lemma invGuard_same:
  assumes "invGuard cfg s" "inFlight s' = inFlight s" "guard s' = guard s" "main s' = main s"
    "tasks s = [] \<Longrightarrow> tasks s' = []"
  shows "invGuard cfg s'"
  using assms unfolding invGuard_def by auto

lemma invGuard_task:
  assumes "invGuard cfg s" "taskStep cfg s i = Some s'"
  shows "invGuard cfg s'"
proof -
  note i = taskStep_index [OF assms(2)]
  let ?t = "tasks s ! i"
  from i have ne: "tasks s \<noteq> []" by auto
  show ?thesis
  proof (cases "pc ?t")
    case TStart
    with assms(2) i
    have s': "s' = setTask (s\<lparr>pbTitle := Base (url ?t)\<rparr>) i (?t\<lparr>pc := TDownload\<rparr>)"
      by (simp add: taskStep_TStart)
    have "inFlight s' = inFlight s" "guard s' = guard s" "main s' = main s"
      using i TStart by (simp_all add: s' inFlight_def count_update_same)
    with assms(1) ne show ?thesis by (rule_tac invGuard_same [of cfg s]) simp_all
  next
    case TDownload
    obtain e s1 where d: "downloadFile (answers cfg i) (url ?t) (outputDir cfg) s = (e, s1)"
      by (cases "downloadFile (answers cfg i) (url ?t) (outputDir cfg) s")
    note fr = downloadFile_frame [OF d]
    from assms(2) i TDownload d
    have s': "s' = (if wg s1 < 0
             then (setTask s1 i (?t\<lparr>pc := TReport, ret := Some e\<rparr>))\<lparr>halted := Some Panic\<rparr>
             else setTask s1 i (?t\<lparr>pc := TReport, ret := Some e\<rparr>))"
      by (simp add: taskStep_TDownload split: if_splits)
    have "inFlight s' = inFlight s" "guard s' = guard s" "main s' = main s"
      using i TDownload fr(1-3) by (simp_all add: s' inFlight_def count_update_same)
    with assms(1) ne show ?thesis by (rule_tac invGuard_same [of cfg s]) simp_all
  next
    case TReport
    from assms(2) i TReport
    have "(tasks s' = (tasks s)[i := ?t\<lparr>pc := TRelease\<rparr>] \<or> tasks s' = tasks s)
          \<and> guard s' = guard s \<and> main s' = main s"
      by (auto simp: taskStep_TReport split: option.splits if_splits)
    then have "inFlight s' = inFlight s" "guard s' = guard s" "main s' = main s"
      using i TReport by (auto simp: inFlight_def count_update_same)
    with assms(1) ne show ?thesis by (rule_tac invGuard_same [of cfg s]) simp_all
  next
    case TRelease
    have pos: "0 < inFlight s"
      using count_pos [of i "tasks s" "\<lambda>t. pc t \<noteq> TDone"] i TRelease by (simp add: inFlight_def)
    from assms(1) pos have n: "concurrent cfg \<noteq> 0" "0 < guard s"
      by (auto simp: invGuard_def split: if_splits)
    with assms(2) i TRelease
    have s': "s' = setTask (s\<lparr>guard := guard s - 1\<rparr>) i (?t\<lparr>pc := TDone\<rparr>)"
      by (simp add: taskStep_TRelease)
    have dec: "Suc (inFlight s') = inFlight s"
      using i TRelease by (simp add: s' inFlight_def count_update_drop)
    have "guard s' = guard s - 1" "main s' = main s" "tasks s' \<noteq> []"
      using ne by (simp_all add: s')
    with assms(1) dec n show ?thesis unfolding invGuard_def by auto
  next
    case TDone
    with assms(2) show ?thesis by (simp add: taskStep_TDone)
  qed
qed


lemma all_update: "\<forall>t \<in> set xs. Q t \<Longrightarrow> Q y \<Longrightarrow> \<forall>t \<in> set (xs[i := y]). Q t"
  using set_update_subset_insert [of xs i y] by auto

lemma map_update_same:
  "i < length xs \<Longrightarrow> f y = f (xs ! i) \<Longrightarrow> map f (xs[i := y]) = map f xs"
  by (simp add: map_update list_update_same_conv)

lemma count_all:
  assumes "length (filter P xs) = length xs" "i < length xs"
  shows "P (xs ! i)"
proof (rule ccontr)
  assume "\<not> P (xs ! i)"
  with assms(2) have "0 < length (filter (\<lambda>x. \<not> P x) xs)"
    using count_pos [of i xs "\<lambda>x. \<not> P x"] by simp
  with sum_length_filter_compl [of P xs] assms(1) show False by simp
qed

lemma mainStep_frame:
  assumes "mainStep cfg s = Some s'" "main s \<noteq> MSpawn"
  shows "tasks s' = tasks s" "files s' = files s" "dirs s' = dirs s"
proof -
  have "tasks s' = tasks s \<and> files s' = files s \<and> dirs s' = dirs s"
  proof (cases "main s")
    case MStart
    with assms(1) show ?thesis
      by (cases "inputError cfg") (auto simp: mainStep_MStart)
  next
    case MSpawn
    with assms(2) show ?thesis by simp
  qed (use assms(1) in \<open>auto simp: mainStep_def split: if_splits\<close>)
  then show "tasks s' = tasks s" "files s' = files s" "dirs s' = dirs s" by simp_all
qed

lemma invRet_main:
  assumes "invRet s" "mainStep cfg s = Some s'"
  shows "invRet s'"
proof (cases "main s = MSpawn")
  case True
  with assms obtain URL rest where p: "pending s = URL # rest"
    by (cases "pending s") (auto simp: mainStep_def)
  with assms True show ?thesis
    by (auto simp: mainStep_MSpawn invRet_def)
next
  case False
  with assms(2) have "tasks s' = tasks s" by (simp add: mainStep_frame)
  with assms(1) show ?thesis by (simp add: invRet_def)
qed

lemma invRet_task:
  assumes "invRet s" "taskStep cfg s i = Some s'"
  shows "invRet s'"
proof -
  note i = taskStep_index [OF assms(2)]
  let ?t = "tasks s ! i"
  let ?Q = "\<lambda>t. (pc t = TStart \<or> pc t = TDownload) = (ret t = None)"
  have old: "\<forall>t \<in> set (tasks s). ?Q t" using assms(1) by (simp add: invRet_def)
  then have ti: "?Q ?t" using i by simp
  have upd: "\<And>y. ?Q y \<Longrightarrow> tasks s' = (tasks s)[i := y] \<Longrightarrow> invRet s'"
    using all_update [OF old] unfolding invRet_def by simp
  show ?thesis
  proof (cases "pc ?t")
    case TStart
    with assms(2) i
    have s': "s' = setTask (s\<lparr>pbTitle := Base (url ?t)\<rparr>) i (?t\<lparr>pc := TDownload\<rparr>)"
      by (simp add: taskStep_TStart)
    show ?thesis using ti TStart by (intro upd [of "?t\<lparr>pc := TDownload\<rparr>"]) (simp_all add: s')
  next
    case TDownload
    obtain e s1 where d: "downloadFile (answers cfg i) (url ?t) (outputDir cfg) s = (e, s1)"
      by (cases "downloadFile (answers cfg i) (url ?t) (outputDir cfg) s")
    note fr = downloadFile_frame [OF d]
    from assms(2) i TDownload d
    have s': "s' = (if wg s1 < 0
             then (setTask s1 i (?t\<lparr>pc := TReport, ret := Some e\<rparr>))\<lparr>halted := Some Panic\<rparr>
             else setTask s1 i (?t\<lparr>pc := TReport, ret := Some e\<rparr>))"
      by (simp add: taskStep_TDownload split: if_splits)
    show ?thesis using fr(1)
      by (intro upd [of "?t\<lparr>pc := TReport, ret := Some e\<rparr>"]) (simp_all add: s')
  next
    case TReport
    from assms(2) i TReport
    have "tasks s' = (tasks s)[i := ?t\<lparr>pc := TRelease\<rparr>] \<or> tasks s' = tasks s"
      by (auto simp: taskStep_TReport split: option.splits if_splits)
    then show ?thesis
    proof
      assume "tasks s' = (tasks s)[i := ?t\<lparr>pc := TRelease\<rparr>]"
      then show ?thesis using ti TReport by (intro upd [of "?t\<lparr>pc := TRelease\<rparr>"]) simp_all
    next
      assume "tasks s' = tasks s"
      with assms(1) show ?thesis by (simp add: invRet_def)
    qed
  next
    case TRelease
    from assms(2) i TRelease
    have "tasks s' = (tasks s)[i := ?t\<lparr>pc := TDone\<rparr>]"
      by (auto simp: taskStep_TRelease split: if_splits)
    then show ?thesis using ti TRelease by (intro upd [of "?t\<lparr>pc := TDone\<rparr>"]) simp_all
  next
    case TDone
    with assms(2) show ?thesis by (simp add: taskStep_TDone)
  qed
qed


lemma invBook_main:
  assumes "invBook cfg s" "mainStep cfg s = Some s'"
  shows "invBook cfg s'"
proof (cases "main s")
  case MStart
  with assms show ?thesis
    by (cases "inputError cfg") (auto simp: mainStep_MStart invBook_def succeeded_def)
next
  case MMake
  with assms show ?thesis
    by (auto simp: mainStep_def invBook_def succeeded_def split: if_splits)
next
  case MLoop
  with assms show ?thesis
    by (auto simp: mainStep_def invBook_def succeeded_def split: if_splits)
next
  case MSpawn
  with assms obtain URL rest where p: "pending s = URL # rest"
    by (cases "pending s") (auto simp: mainStep_def)
  with assms MSpawn show ?thesis
    by (auto simp: mainStep_MSpawn invBook_def succeeded_def)
next
  case MWait
  with assms show ?thesis
    by (auto simp: mainStep_def invBook_def succeeded_def split: if_splits)
next
  case (MReturned r)
  with assms show ?thesis by (simp add: mainStep_def)
qed

lemma invBook_same:
  assumes "invBook cfg s" "tasks s \<noteq> []" "main s' = main s" "pending s' = pending s"
    "map url (tasks s') = map url (tasks s)"
    "wg s' + int (succeeded s') = wg s + int (succeeded s)"
    "main s = MReturned None \<Longrightarrow> wg s' = 0"
  shows "invBook cfg s'"
proof -
  from assms(1,2) have st: "started (main s)" by (auto simp: invBook_def)
  with assms show ?thesis unfolding invBook_def by auto
qed

lemma release_step:
  assumes "invGuard cfg s" "taskStep cfg s i = Some s'" "pc (tasks s ! i) = TRelease"
  shows "s' = setTask (s\<lparr>guard := guard s - 1\<rparr>) i ((tasks s ! i)\<lparr>pc := TDone\<rparr>)"
proof -
  note i = taskStep_index [OF assms(2)]
  have pos: "0 < inFlight s"
    using count_pos [of i "tasks s" "\<lambda>t. pc t \<noteq> TDone"] i assms(3) by (simp add: inFlight_def)
  from assms(1) pos have n: "concurrent cfg \<noteq> 0" "0 < guard s"
    by (auto simp: invGuard_def split: if_splits)
  with assms(2,3) i show ?thesis by (simp add: taskStep_TRelease)
qed

lemma report_step:
  assumes "taskStep cfg s i = Some s'" "pc (tasks s ! i) = TReport"
  shows "(ret (tasks s ! i) = Some None \<and> s' = succeed s i (tasks s ! i))
       \<or> (\<exists>err. ret (tasks s ! i) = Some (Some err) \<and> fatalExits cfg
              \<and> s' = s\<lparr>sink := sink s @ [FatalNotice err], halted := Some FatalExit\<rparr>)
       \<or> (\<exists>err. ret (tasks s ! i) = Some (Some err) \<and> \<not> fatalExits cfg
              \<and> s' = succeed (s\<lparr>sink := sink s @ [FatalNotice err]\<rparr>) i (tasks s ! i))"
  using assms taskStep_index [OF assms(1)]
  by (auto simp: taskStep_TReport split: option.splits if_splits)

lemma invBook_task:
  assumes "invBook cfg s" "invRet s" "invGuard cfg s" "taskStep cfg s i = Some s'"
  shows "invBook cfg s'"
proof -
  note i = taskStep_index [OF assms(4)]
  let ?t = "tasks s ! i"
  from i have ne: "tasks s \<noteq> []" by auto
  show ?thesis
  proof (cases "pc ?t")
    case TStart
    with assms(4) i
    have s': "s' = setTask (s\<lparr>pbTitle := Base (url ?t)\<rparr>) i (?t\<lparr>pc := TDownload\<rparr>)"
      by (simp add: taskStep_TStart)
    have "main s' = main s" "pending s' = pending s" "map url (tasks s') = map url (tasks s)"
      "wg s' = wg s" "succeeded s' = succeeded s"
      using i by (simp_all add: s' succeeded_def count_update_same map_update_same)
    with assms(1) ne show ?thesis by (rule_tac invBook_same [of cfg s]) (auto simp: invBook_def)
  next
    case TDownload
    obtain e s1 where d: "downloadFile (answers cfg i) (url ?t) (outputDir cfg) s = (e, s1)"
      by (cases "downloadFile (answers cfg i) (url ?t) (outputDir cfg) s")
    note fr = downloadFile_frame [OF d]
    from assms(4) i TDownload d
    have s': "s' = (if wg s1 < 0
             then (setTask s1 i (?t\<lparr>pc := TReport, ret := Some e\<rparr>))\<lparr>halted := Some Panic\<rparr>
             else setTask s1 i (?t\<lparr>pc := TReport, ret := Some e\<rparr>))"
      by (simp add: taskStep_TDownload split: if_splits)
    from assms(2) i TDownload have r: "ret ?t = None" by (auto simp: invRet_def)
    have notret: "main s \<noteq> MReturned None"
    proof
      assume m: "main s = MReturned None"
      with assms(1) have "pending s = []" "wg s = 0" "map url (tasks s) @ pending s = urls cfg"
        "wg s = int (length (urls cfg)) - int (succeeded s)"
        by (auto simp: invBook_def)
      then have "succeeded s = length (tasks s)"
        by (metis append_Nil2 diff_0_right diff_diff_eq2 int_ops(1) length_map of_nat_eq_iff
            add.commute add_0 diff_add_cancel)
      then have "ret ?t = Some None"
        using count_all [of "\<lambda>t. ret t = Some None" "tasks s" i] i by (simp add: succeeded_def)
      with r show False by simp
    qed
    have cnt: "succeeded s' = succeeded s + (if e = None then 1 else 0)"
      using i r by (simp add: s' fr(1) succeeded_def count_update_same count_update_add)
    have "main s' = main s" "pending s' = pending s" "map url (tasks s') = map url (tasks s)"
      "wg s' = (if e = None then wg s - 1 else wg s)"
      using i fr by (simp_all add: s' map_update_same)
    with assms(1) ne cnt notret show ?thesis by (rule_tac invBook_same [of cfg s]) auto
  next
    case TReport
    from report_step [OF assms(4) TReport]
    have "main s' = main s \<and> pending s' = pending s \<and> wg s' = wg s
        \<and> (tasks s' = (tasks s)[i := ?t\<lparr>pc := TRelease\<rparr>] \<or> tasks s' = tasks s)"
      by auto
    then have "main s' = main s" "pending s' = pending s" "map url (tasks s') = map url (tasks s)"
      "wg s' = wg s" "succeeded s' = succeeded s"
      using i by (auto simp: succeeded_def count_update_same map_update_same)
    with assms(1) ne show ?thesis by (rule_tac invBook_same [of cfg s]) (auto simp: invBook_def)
  next
    case TRelease
    note s' = release_step [OF assms(3,4) TRelease]
    have "main s' = main s" "pending s' = pending s" "map url (tasks s') = map url (tasks s)"
      "wg s' = wg s" "succeeded s' = succeeded s"
      using i by (simp_all add: s' succeeded_def count_update_same map_update_same)
    with assms(1) ne show ?thesis by (rule_tac invBook_same [of cfg s]) (auto simp: invBook_def)
  next
    case TDone
    with assms(4) show ?thesis by (simp add: taskStep_TDone)
  qed
qed


lemma invProgress_main:
  assumes "invProgress cfg s" "mainStep cfg s = Some s'"
  shows "invProgress cfg s'"
proof (cases "main s")
  case MStart
  with assms show ?thesis
    by (cases "inputError cfg") (auto simp: mainStep_MStart invProgress_def advanced_def)
next
  case MMake
  with assms show ?thesis
    by (auto simp: mainStep_def invProgress_def advanced_def split: if_splits)
next
  case MLoop
  with assms show ?thesis
    by (auto simp: mainStep_def invProgress_def advanced_def split: if_splits)
next
  case MSpawn
  with assms obtain URL rest where p: "pending s = URL # rest"
    by (cases "pending s") (auto simp: mainStep_def)
  with assms MSpawn show ?thesis
    by (auto simp: mainStep_MSpawn invProgress_def advanced_def)
next
  case MWait
  with assms show ?thesis
    by (auto simp: mainStep_def invProgress_def advanced_def split: if_splits)
next
  case (MReturned r)
  with assms show ?thesis by (simp add: mainStep_def)
qed

lemma invProgress_upd:
  assumes "invProgress cfg s" "i < length (tasks s)" "tasks s' = (tasks s)[i := y]"
    "main s' = main s"
    "pbCurrent s' + (if pc (tasks s ! i) = TRelease \<or> pc (tasks s ! i) = TDone then 1 else 0)
       = pbCurrent s + (if pc y = TRelease \<or> pc y = TDone then 1 else 0)"
    "fatalExits cfg \<Longrightarrow> pc y = TRelease \<or> pc y = TDone \<Longrightarrow> ret y = Some None"
  shows "invProgress cfg s'"
proof -
  let ?P = "\<lambda>t. pc t = TRelease \<or> pc t = TDone"
  from assms(2) have ne: "tasks s \<noteq> []" by auto
  have a: "pbCurrent s' = advanced s'"
    using count_update [OF assms(2), of ?P y] assms(1,3,5)
    by (simp add: invProgress_def advanced_def split: if_splits)
  have b: "main s' = MStart \<longrightarrow> tasks s' = []"
    using assms(1,4) ne by (auto simp: invProgress_def)
  have c: "fatalExits cfg \<longrightarrow> (\<forall>t \<in> set (tasks s'). ?P t \<longrightarrow> ret t = Some None)"
  proof
    assume f: "fatalExits cfg"
    with assms(1) have "\<forall>t \<in> set (tasks s). ?P t \<longrightarrow> ret t = Some None"
      by (simp add: invProgress_def)
    from all_update [OF this, of y i] assms(6) [OF f] assms(3)
    show "\<forall>t \<in> set (tasks s'). ?P t \<longrightarrow> ret t = Some None" by simp
  qed
  from a b c show ?thesis by (simp add: invProgress_def)
qed

lemma invProgress_task:
  assumes "invProgress cfg s" "invGuard cfg s" "taskStep cfg s i = Some s'"
  shows "invProgress cfg s'"
proof -
  note i = taskStep_index [OF assms(3)]
  let ?t = "tasks s ! i"
  let ?P = "\<lambda>t. pc t = TRelease \<or> pc t = TDone"
  show ?thesis
  proof (cases "pc ?t")
    case TStart
    with assms(3) i
    have s': "s' = setTask (s\<lparr>pbTitle := Base (url ?t)\<rparr>) i (?t\<lparr>pc := TDownload\<rparr>)"
      by (simp add: taskStep_TStart)
    show ?thesis using TStart
      by (intro invProgress_upd [OF assms(1) i, of _ "?t\<lparr>pc := TDownload\<rparr>"]) (simp_all add: s')
  next
    case TDownload
    obtain e s1 where d: "downloadFile (answers cfg i) (url ?t) (outputDir cfg) s = (e, s1)"
      by (cases "downloadFile (answers cfg i) (url ?t) (outputDir cfg) s")
    note fr = downloadFile_frame [OF d]
    from assms(3) i TDownload d
    have s': "s' = (if wg s1 < 0
             then (setTask s1 i (?t\<lparr>pc := TReport, ret := Some e\<rparr>))\<lparr>halted := Some Panic\<rparr>
             else setTask s1 i (?t\<lparr>pc := TReport, ret := Some e\<rparr>))"
      by (simp add: taskStep_TDownload split: if_splits)
    show ?thesis using TDownload fr
      by (intro invProgress_upd [OF assms(1) i, of _ "?t\<lparr>pc := TReport, ret := Some e\<rparr>"])
         (simp_all add: s')
  next
    case TReport
    from report_step [OF assms(3) TReport] show ?thesis
    proof (elim disjE exE conjE)
      assume r: "ret ?t = Some None" and s': "s' = succeed s i ?t"
      show ?thesis using TReport r
        by (intro invProgress_upd [OF assms(1) i, of _ "?t\<lparr>pc := TRelease\<rparr>"]) (simp_all add: s')
    next
      fix err assume s': "s' = s\<lparr>sink := sink s @ [FatalNotice err], halted := Some FatalExit\<rparr>"
      with assms(1) show ?thesis by (simp add: invProgress_def advanced_def)
    next
      fix err assume f: "\<not> fatalExits cfg"
        and s': "s' = succeed (s\<lparr>sink := sink s @ [FatalNotice err]\<rparr>) i ?t"
      show ?thesis using TReport f
        by (intro invProgress_upd [OF assms(1) i, of _ "?t\<lparr>pc := TRelease\<rparr>"]) (simp_all add: s')
    qed
  next
    case TRelease
    note s' = release_step [OF assms(2,3) TRelease]
    from assms(1) i TRelease have "fatalExits cfg \<Longrightarrow> ret ?t = Some None"
      by (auto simp: invProgress_def)
    then show ?thesis using TRelease
      by (intro invProgress_upd [OF assms(1) i, of _ "?t\<lparr>pc := TDone\<rparr>"]) (simp_all add: s')
  next
    case TDone
    with assms(3) show ?thesis by (simp add: taskStep_TDone)
  qed
qed

lemma inv_fire:
  assumes "inv cfg s" "fire cfg s a = Some s'"
  shows "inv cfg s'"
proof (cases a)
  case Main
  with assms(2) have "mainStep cfg s = Some s'" by (simp add: fire_def split: if_splits)
  with assms(1) show ?thesis
    unfolding inv_def using invGuard_main invRet_main invBook_main invProgress_main by blast
next
  case (Task i)
  with assms(2) have "taskStep cfg s i = Some s'" by (simp add: fire_def split: if_splits)
  with assms(1) show ?thesis
    unfolding inv_def using invGuard_task invRet_task invBook_task invProgress_task by blast
qed

lemma inv_exec:
  assumes "inv cfg s0" "exec cfg s0 sched = Some s"
  shows "inv cfg s"
  using exec_invariant [OF assms(2), of "inv cfg"] assms(1) inv_fire by blast

lemma inv_reachable:
  assumes "exec cfg (initial cfg) sched = Some s"
  shows "inv cfg s"
  using inv_exec [OF inv_initial assms] .

section \<open>The claims\<close>

lemma pos_index:
  assumes "0 < length (filter P xs)"
  shows "\<exists>i < length xs. P (xs ! i)"
proof -
  from assms obtain x where "x \<in> set xs" "P x"
    by (metis filter_False length_greater_0_conv)
  then show ?thesis by (metis in_set_conv_nth)
qed

lemma inFlight_le_length: "inFlight s \<le> length (tasks s)"
  by (simp add: inFlight_def)

text \<open>
  C1. In every reachable state of a run with concurrency limit N, at most N goroutines
  of the fan-out loop are in flight (none at all when N is negative). Every goroutine in
  flight holds a token of the channel: a goroutine is started only from the position
  reached by a send that took a free slot, and the send is blocked while the channel
  holds N tokens.
\<close>

theorem C1_concurrency_bound:
  assumes "exec cfg (initial cfg) sched = Some s"
  shows "(0 \<le> concurrent cfg \<longrightarrow> int (inFlight s) \<le> concurrent cfg)
       \<and> (concurrent cfg < 0 \<longrightarrow> inFlight s = 0)
       \<and> inFlight s \<le> guard s
       \<and> (\<forall>s'. fire cfg s Main = Some s' \<and> length (tasks s) < length (tasks s')
              \<longrightarrow> main s = MSpawn \<and> guard s = Suc (inFlight s) \<and> inFlight s' = guard s')
       \<and> (main s = MLoop \<and> pending s \<noteq> [] \<and> concurrent cfg \<le> int (guard s)
              \<longrightarrow> fire cfg s Main = None)"
proof -
  from inv_reachable [OF assms] have g: "invGuard cfg s" by (simp add: inv_def)
  then have a: "guard s = inFlight s + (if main s = MSpawn then 1 else 0)"
    and b: "int (guard s) \<le> max 0 (concurrent cfg)"
    by (simp_all add: invGuard_def)
  have 1: "0 \<le> concurrent cfg \<longrightarrow> int (inFlight s) \<le> concurrent cfg" using a b by auto
  have 2: "concurrent cfg < 0 \<longrightarrow> inFlight s = 0" using a b by auto
  have 3: "inFlight s \<le> guard s" using a by simp
  have 4: "\<forall>s'. fire cfg s Main = Some s' \<and> length (tasks s) < length (tasks s')
              \<longrightarrow> main s = MSpawn \<and> guard s = Suc (inFlight s) \<and> inFlight s' = guard s'"
  proof (intro allI impI, elim conjE)
    fix s' assume f: "fire cfg s Main = Some s'" and l: "length (tasks s) < length (tasks s')"
    from f have m: "mainStep cfg s = Some s'" by (simp add: fire_def split: if_splits)
    have sp: "main s = MSpawn"
    proof (rule ccontr)
      assume "main s \<noteq> MSpawn"
      from mainStep_frame(1) [OF m this] l show False by simp
    qed
    from invGuard_main [OF g m] have "guard s' = inFlight s' + (if main s' = MSpawn then 1 else 0)"
      by (simp add: invGuard_def)
    moreover from m sp have "main s' = MLoop"
      by (cases "pending s") (auto simp: mainStep_def)
    ultimately show "main s = MSpawn \<and> guard s = Suc (inFlight s) \<and> inFlight s' = guard s'"
      using sp a by simp
  qed
  have 5: "main s = MLoop \<and> pending s \<noteq> [] \<and> concurrent cfg \<le> int (guard s)
              \<longrightarrow> fire cfg s Main = None"
    by (simp add: fire_def mainStep_def)
  from 1 2 3 4 5 show ?thesis by blast
qed

theorem C1_concurrency_bound_witness:
  "observe inFlight (exampleConfig (listFile twoUrls) 1 allOk True)
     [Main, Main, Main, Main, Task 0, Task 0] = Some 1
   \<and> observe guard (exampleConfig (listFile twoUrls) 1 allOk True)
     [Main, Main, Main, Main, Task 0, Task 0] = Some 1
   \<and> observe (\<lambda>s. fire (exampleConfig (listFile twoUrls) 1 allOk True) s Main)
     (exampleConfig (listFile twoUrls) 1 allOk True)
     [Main, Main, Main, Main, Task 0, Task 0] = Some None"
proof -
  let ?cfg = "exampleConfig (listFile twoUrls) 1 allOk True"
  let ?sched = "[Main, Main, Main, Main, Task 0, Task 0]"
  obtain s where e: "exec ?cfg (initial ?cfg) ?sched = Some s"
    and m: "main s = MLoop" "pending s \<noteq> []" "guard s = 1" "inFlight s = 1"
    by (simp add: model_defs example_defs twoUrls_def inFlight_def)
  have c: "concurrent ?cfg = 1" by (simp add: exampleConfig_def)
  from C1_concurrency_bound [OF e] m c
  have "int (inFlight s) \<le> 1" "fire ?cfg s Main = None" by simp_all
  with e m show ?thesis by (simp add: observe_def)
qed

lemma succeeded_le: "succeeded s \<le> length (tasks s)"
  by (simp add: succeeded_def)

lemma book_lengths:
  assumes "invBook cfg s" "started (main s)"
  shows "length (tasks s) + length (pending s) = length (urls cfg)"
proof -
  from assms have "map url (tasks s) @ pending s = urls cfg" by (simp add: invBook_def)
  then have "length (map url (tasks s) @ pending s) = length (urls cfg)" by simp
  then show ?thesis by simp
qed

lemma returned_all_succeeded:
  assumes "inv cfg s" "main s = MReturned None"
  shows "succeeded s = length (urls cfg)" "length (tasks s) = length (urls cfg)"
    "\<forall>t \<in> set (tasks s). ret t = Some None"
proof -
  from assms have b: "invBook cfg s" and st: "started (main s)" by (simp_all add: inv_def)
  from b assms(2) have p: "pending s = []" and w: "wg s = 0"
    and e: "wg s = int (length (urls cfg)) - int (succeeded s)"
    by (simp_all add: invBook_def)
  from book_lengths [OF b st] p show l: "length (tasks s) = length (urls cfg)" by simp
  from w e show c: "succeeded s = length (urls cfg)" by simp
  show "\<forall>t \<in> set (tasks s). ret t = Some None"
  proof
    fix t assume "t \<in> set (tasks s)"
    then obtain i where i: "i < length (tasks s)" "t = tasks s ! i"
      by (metis in_set_conv_nth)
    from c l have "length (filter (\<lambda>t. ret t = Some None) (tasks s)) = length (tasks s)"
      by (simp add: succeeded_def)
    from count_all [OF this i(1)] i(2) show "ret t = Some None" by simp
  qed
qed

lemma observe_conj:
  assumes "observe f cfg sched = Some a" "observe g cfg sched = Some b"
  shows "\<exists>s. exec cfg (initial cfg) sched = Some s \<and> f s = a \<and> g s = b"
  using assms by (auto simp: observe_def)

text \<open>
  C2, as amended. The counter of the wait group is raised once, by the number of URLs,
  before the fan-out; a call of \<open>downloadFile\<close> lowers it by one when it returns
  \<open>nil\<close> and leaves it unchanged when it returns an error. So the counter is the
  number of URLs minus the number of calls that have returned \<open>nil\<close>, it is never
  negative, and the Action returns \<open>nil\<close> only after one call per URL has returned
  \<open>nil\<close>.
\<close>

theorem C2_completion_tracker:
  assumes "exec cfg (initial cfg) sched = Some s"
  shows "(\<not> started (main s) \<longrightarrow> wg s = 0)
       \<and> (started (main s) \<longrightarrow> wg s = int (length (urls cfg)) - int (succeeded s))
       \<and> (\<forall>w URL dir. wg (snd (downloadFile w URL dir s))
              = (if fst (downloadFile w URL dir s) = None then wg s - 1 else wg s))
       \<and> 0 \<le> wg s
       \<and> (main s = MReturned None
            \<longrightarrow> succeeded s = length (urls cfg) \<and> length (tasks s) = length (urls cfg))"
proof -
  note i = inv_reachable [OF assms]
  then have b: "invBook cfg s" by (simp add: inv_def)
  have 1: "\<not> started (main s) \<longrightarrow> wg s = 0" using b by (simp add: invBook_def)
  have 2: "started (main s) \<longrightarrow> wg s = int (length (urls cfg)) - int (succeeded s)"
    using b by (simp add: invBook_def)
  have 3: "\<forall>w URL dir. wg (snd (downloadFile w URL dir s))
              = (if fst (downloadFile w URL dir s) = None then wg s - 1 else wg s)"
    using downloadFile_frame' by blast
  have 4: "0 \<le> wg s"
  proof (cases "started (main s)")
    case True
    from book_lengths [OF b True] succeeded_le [of s] 2 True show ?thesis by simp
  next
    case False
    with 1 show ?thesis by simp
  qed
  have 5: "main s = MReturned None
            \<longrightarrow> succeeded s = length (urls cfg) \<and> length (tasks s) = length (urls cfg)"
    using returned_all_succeeded(1,2) [OF i] by blast
  from 1 2 3 4 5 show ?thesis by blast
qed

theorem C2_completion_tracker_witness:
  "observe wg (exampleConfig (listFile oneUrl) 3 allOk True)
     [Main, Main, Main, Main, Task 0, Task 0, Main, Main] = Some 0
   \<and> observe succeeded (exampleConfig (listFile oneUrl) 3 allOk True)
     [Main, Main, Main, Main, Task 0, Task 0, Main, Main] = Some 1
   \<and> observe main (exampleConfig (listFile oneUrl) 3 allOk True)
     [Main, Main, Main, Main, Task 0, Task 0, Main, Main] = Some (MReturned None)
   \<and> length (urls (exampleConfig (listFile oneUrl) 3 allOk True)) = 1"
proof -
  let ?cfg = "exampleConfig (listFile oneUrl) 3 allOk True"
  let ?sched = "[Main, Main, Main, Main, Task 0, Task 0, Main, Main]"
  have o1: "observe main ?cfg ?sched = Some (MReturned None)"
    by (simp add: model_defs example_defs oneUrl_def)
  have o2: "observe wg ?cfg ?sched = Some 0"
    by (simp add: model_defs example_defs oneUrl_def)
  from observe_conj [OF o1 o2] obtain s where e: "exec ?cfg (initial ?cfg) ?sched = Some s"
    and m: "main s = MReturned None" "wg s = 0" by blast
  from C2_completion_tracker [OF e]
  have "main s = MReturned None \<longrightarrow>
          succeeded s = length (urls ?cfg) \<and> length (tasks s) = length (urls ?cfg)"
    by blast
  with m have "succeeded s = length (urls ?cfg)" by simp
  moreover have "length (urls ?cfg) = 1"
    by (simp add: urls_def model_defs example_defs oneUrl_def)
  ultimately show ?thesis using e m by (simp add: observe_def)
qed

text \<open>
  C2 as stated fails: a job whose GET fails has reached its end (the call has returned,
  the \<open>Fatal\<close> printer has run, and where that printer returns the goroutine has given
  its permit back), and the counter still stands at 1; the main goroutine then waits
  for ever.
\<close>

theorem C2_counterexample:
  "observe wg (exampleConfig (listFile oneUrl) 3 allFail True)
     [Main, Main, Main, Main, Task 0, Task 0] = Some 1
   \<and> observe (map ret \<circ> tasks) (exampleConfig (listFile oneUrl) 3 allFail True)
     [Main, Main, Main, Main, Task 0, Task 0] = Some [Some (Some connRefused)]
   \<and> observe wg (exampleConfig (listFile oneUrl) 3 allFail True)
     [Main, Main, Main, Main, Task 0, Task 0, Task 0] = Some 1
   \<and> observe halted (exampleConfig (listFile oneUrl) 3 allFail True)
     [Main, Main, Main, Main, Task 0, Task 0, Task 0] = Some (Some FatalExit)
   \<and> observe wg (exampleConfig (listFile oneUrl) 3 allFail False)
     [Main, Main, Main, Main, Task 0, Task 0, Task 0, Task 0, Main] = Some 1
   \<and> observe (map pc \<circ> tasks) (exampleConfig (listFile oneUrl) 3 allFail False)
     [Main, Main, Main, Main, Task 0, Task 0, Task 0, Task 0, Main] = Some [TDone]
   \<and> observe (stuck (exampleConfig (listFile oneUrl) 3 allFail False))
     (exampleConfig (listFile oneUrl) 3 allFail False)
     [Main, Main, Main, Main, Task 0, Task 0, Task 0, Task 0, Main] = Some True"
  by (intro conjI; simp add: model_defs example_defs oneUrl_def)

lemma halted_fire: "halted s \<noteq> None \<Longrightarrow> fire cfg s a = None"
  by (simp add: fire_def)

lemma failed_at_report:
  assumes "inv cfg s" "fatalExits cfg" "i < length (tasks s)" "ret (tasks s ! i) = Some (Some err)"
  shows "pc (tasks s ! i) = TReport"
proof -
  from assms(3) have m: "tasks s ! i \<in> set (tasks s)" by simp
  from assms(1) m assms(4) have a: "pc (tasks s ! i) \<noteq> TStart" "pc (tasks s ! i) \<noteq> TDownload"
    unfolding inv_def invRet_def by auto
  from assms(1,2) m assms(4) have b: "pc (tasks s ! i) \<noteq> TRelease" "pc (tasks s ! i) \<noteq> TDone"
    unfolding inv_def invProgress_def by auto
  from a b show ?thesis by (cases "pc (tasks s ! i)") simp_all
qed

text \<open>
  C3, as amended. A failure of one item (the GET fails, or the directory, the file or the
  copy fails) is handed to the \<open>Fatal\<close> printer by the item's goroutine and leaves the
  files written so far in place, but the run does not complete after it: the Action
  never returns \<open>nil\<close> once a call of \<open>downloadFile\<close> has returned an error. Where
  the \<open>Fatal\<close> printer terminates the program, the failed goroutine never gets past its
  report, and after the report no goroutine takes another step: the items in flight
  and the items still pending are abandoned.
\<close>

theorem C3_failure_is_fatal:
  assumes "exec cfg (initial cfg) sched = Some s"
    and "i < length (tasks s)" and "ret (tasks s ! i) = Some (Some err)"
  shows "main s \<noteq> MReturned None
       \<and> (fatalExits cfg \<longrightarrow> pc (tasks s ! i) = TReport)
       \<and> (pc (tasks s ! i) = TReport \<and> halted s = None \<longrightarrow>
            (\<exists>s'. fire cfg s (Task i) = Some s'
                  \<and> FatalNotice err \<in> set (sink s') \<and> files s' = files s
                  \<and> (fatalExits cfg \<longrightarrow>
                        halted s' = Some FatalExit \<and> tasks s' = tasks s \<and> pending s' = pending s
                        \<and> (\<forall>a. fire cfg s' a = None))))"
proof -
  note iv = inv_reachable [OF assms(1)]
  have 1: "main s \<noteq> MReturned None"
  proof
    assume "main s = MReturned None"
    from returned_all_succeeded(3) [OF iv this] assms(2) have "ret (tasks s ! i) = Some None"
      by simp
    with assms(3) show False by simp
  qed
  have 2: "fatalExits cfg \<longrightarrow> pc (tasks s ! i) = TReport"
    using failed_at_report [OF iv _ assms(2,3)] by blast
  have 3: "pc (tasks s ! i) = TReport \<and> halted s = None \<longrightarrow>
            (\<exists>s'. fire cfg s (Task i) = Some s'
                  \<and> FatalNotice err \<in> set (sink s') \<and> files s' = files s
                  \<and> (fatalExits cfg \<longrightarrow>
                        halted s' = Some FatalExit \<and> tasks s' = tasks s \<and> pending s' = pending s
                        \<and> (\<forall>a. fire cfg s' a = None)))"
  proof (intro impI, elim conjE)
    assume r: "pc (tasks s ! i) = TReport" and h: "halted s = None"
    show "\<exists>s'. fire cfg s (Task i) = Some s'
                  \<and> FatalNotice err \<in> set (sink s') \<and> files s' = files s
                  \<and> (fatalExits cfg \<longrightarrow>
                        halted s' = Some FatalExit \<and> tasks s' = tasks s \<and> pending s' = pending s
                        \<and> (\<forall>a. fire cfg s' a = None))"
    proof (cases "fatalExits cfg")
      case True
      let ?s' = "s\<lparr>sink := sink s @ [FatalNotice err], halted := Some FatalExit\<rparr>"
      have "fire cfg s (Task i) = Some ?s'"
        using assms(2,3) r h True by (simp add: fire_def taskStep_TReport)
      moreover have "\<forall>a. fire cfg ?s' a = None" by (simp add: halted_fire)
      ultimately show ?thesis by simp
    next
      case False
      let ?s' = "succeed (s\<lparr>sink := sink s @ [FatalNotice err]\<rparr>) i (tasks s ! i)"
      have "fire cfg s (Task i) = Some ?s'"
        using assms(2,3) r h False by (simp add: fire_def taskStep_TReport)
      then show ?thesis using False by simp
    qed
  qed
  from 1 2 3 show ?thesis by blast
qed

theorem C3_failure_is_fatal_witness:
  "\<exists>s s'. exec (exampleConfig (listFile threeUrls) 1 secondFails True)
             (initial (exampleConfig (listFile threeUrls) 1 secondFails True))
             [Main, Main, Main, Main, Task 0, Task 0, Task 0, Task 0, Main, Main, Task 1, Task 1]
           = Some s
         \<and> ret (tasks s ! 1) = Some (Some connRefused)
         \<and> main s \<noteq> MReturned None
         \<and> fire (exampleConfig (listFile threeUrls) 1 secondFails True) s (Task 1) = Some s'
         \<and> halted s' = Some FatalExit \<and> pending s' = [''http://h/c'']"
proof -
  let ?cfg = "exampleConfig (listFile threeUrls) 1 secondFails True"
  let ?sched = "[Main, Main, Main, Main, Task 0, Task 0, Task 0, Task 0, Main, Main, Task 1, Task 1]"
  have o1: "observe (\<lambda>s. (map ret (tasks s), map pc (tasks s), halted s, pending s)) ?cfg ?sched
            = Some ([Some None, Some (Some connRefused)], [TDone, TReport], None, [''http://h/c''])"
    by (simp add: model_defs example_defs)
  then obtain s where e: "exec ?cfg (initial ?cfg) ?sched = Some s"
    and t: "map ret (tasks s) = [Some None, Some (Some connRefused)]"
      "map pc (tasks s) = [TDone, TReport]" "halted s = None" "pending s = [''http://h/c'']"
    by (auto simp: observe_def)
  from t(1) have l: "1 < length (tasks s)"
    by (metis length_map length_Cons list.size(3) One_nat_def lessI)
  from t(1,2) l have r: "ret (tasks s ! 1) = Some (Some connRefused)" "pc (tasks s ! 1) = TReport"
    by (metis nth_map nth_Cons_0 nth_Cons_Suc One_nat_def)+
  have f: "fatalExits ?cfg" by (simp add: exampleConfig_def)
  from C3_failure_is_fatal [OF e l r(1)] r(2) t(3) f
  obtain s' where "main s \<noteq> MReturned None" "fire ?cfg s (Task 1) = Some s'"
    "halted s' = Some FatalExit" "pending s' = pending s"
    by blast
  with e r t(4) show ?thesis by auto
qed

text \<open>
  C3 as stated fails. Three URLs, one download at a time, the second GET fails. Where the
  \<open>Fatal\<close> printer terminates the program, the run ends with the third URL still
  pending and no file for it. Where it returns, all three goroutines run to their end,
  and the main goroutine then waits for ever in \<open>wg.Wait()\<close>: no step is possible and
  the Action has not returned.
\<close>

theorem C3_counterexample:
  "observe halted (exampleConfig (listFile threeUrls) 1 secondFails True)
     [Main, Main, Main, Main, Task 0, Task 0, Task 0, Task 0, Main, Main, Task 1, Task 1, Task 1]
     = Some (Some FatalExit)
   \<and> observe pending (exampleConfig (listFile threeUrls) 1 secondFails True)
     [Main, Main, Main, Main, Task 0, Task 0, Task 0, Task 0, Main, Main, Task 1, Task 1, Task 1]
     = Some [''http://h/c'']
   \<and> observe (fileAt ''out/c'') (exampleConfig (listFile threeUrls) 1 secondFails True)
     [Main, Main, Main, Main, Task 0, Task 0, Task 0, Task 0, Main, Main, Task 1, Task 1, Task 1]
     = Some None
   \<and> observe (stuck (exampleConfig (listFile threeUrls) 1 secondFails True))
     (exampleConfig (listFile threeUrls) 1 secondFails True)
     [Main, Main, Main, Main, Task 0, Task 0, Task 0, Task 0, Main, Main, Task 1, Task 1, Task 1]
     = Some True
   \<and> observe main (exampleConfig (listFile threeUrls) 1 secondFails False)
     [Main, Main, Main, Main, Task 0, Task 0, Task 0, Task 0, Main, Main,
      Task 1, Task 1, Task 1, Task 1, Main, Main, Task 2, Task 2, Task 2, Task 2, Main]
     = Some MWait
   \<and> observe (stuck (exampleConfig (listFile threeUrls) 1 secondFails False))
     (exampleConfig (listFile threeUrls) 1 secondFails False)
     [Main, Main, Main, Main, Task 0, Task 0, Task 0, Task 0, Main, Main,
      Task 1, Task 1, Task 1, Task 1, Main, Main, Task 2, Task 2, Task 2, Task 2, Main]
     = Some True"
  by (intro conjI; simp add: model_defs example_defs)

lemma inputError_unfold:
  "inputError cfg =
     (case openFile cfg (inputFile cfg) of
        Inl err \<Rightarrow> Some err
      | Inr (data, readErr) \<Rightarrow>
          (case snd (scanLines data) of Some err \<Rightarrow> Some err | None \<Rightarrow> readErr))"
  by (simp add: inputError_def readLines_def split: sum.split prod.split option.split)

text \<open>
  C4, as amended. The value the Action returns is the error of \<open>readLines\<close> (the error
  of opening the list file, or the error that ended the scan) or \<open>nil\<close>, never the
  error of an item. An input error is returned by the first step, before the wait
  group, the printers, the file system or any goroutine has been touched. The errors of
  the items are not swallowed either: the Action returns \<open>nil\<close> only when the call of
  \<open>downloadFile\<close> has returned \<open>nil\<close> for every URL of the list.
\<close>

theorem C4_error_propagation:
  assumes "exec cfg (initial cfg) sched = Some s"
  shows "(\<forall>r. main s = MReturned r \<longrightarrow> r = inputError cfg)
       \<and> inputError cfg =
           (case openFile cfg (inputFile cfg) of
              Inl err \<Rightarrow> Some err
            | Inr (data, readErr) \<Rightarrow>
                (case snd (scanLines data) of Some err \<Rightarrow> Some err | None \<Rightarrow> readErr))
       \<and> (\<forall>err. inputError cfg = Some err \<longrightarrow>
              fire cfg (initial cfg) Main = Some ((initial cfg)\<lparr>main := MReturned (Some err)\<rparr>))
       \<and> (\<forall>err. main s = MReturned (Some err) \<longrightarrow>
              tasks s = [] \<and> pending s = [] \<and> sink s = [] \<and> wg s = 0
              \<and> files s = initialFiles cfg \<and> dirs s = {})
       \<and> (main s = MReturned None \<longrightarrow>
              map url (tasks s) = urls cfg \<and> (\<forall>t \<in> set (tasks s). ret t = Some None))"
proof -
  note iv = inv_reachable [OF assms]
  then have b: "invBook cfg s" by (simp add: inv_def)
  have 1: "\<forall>r. main s = MReturned r \<longrightarrow> r = inputError cfg"
  proof (intro allI impI)
    fix r assume m: "main s = MReturned r"
    show "r = inputError cfg"
    proof (cases r)
      case None
      with m b show ?thesis by (simp add: invBook_def)
    next
      case (Some err)
      with m b show ?thesis by (simp add: invBook_def)
    qed
  qed
  have 3: "\<forall>err. inputError cfg = Some err \<longrightarrow>
              fire cfg (initial cfg) Main = Some ((initial cfg)\<lparr>main := MReturned (Some err)\<rparr>)"
    by (simp add: fire_def mainStep_MStart initial_def)
  have 4: "\<forall>err. main s = MReturned (Some err) \<longrightarrow>
              tasks s = [] \<and> pending s = [] \<and> sink s = [] \<and> wg s = 0
              \<and> files s = initialFiles cfg \<and> dirs s = {}"
    using b by (auto simp: invBook_def)
  have 5: "main s = MReturned None \<longrightarrow>
              map url (tasks s) = urls cfg \<and> (\<forall>t \<in> set (tasks s). ret t = Some None)"
  proof
    assume m: "main s = MReturned None"
    with b have "map url (tasks s) @ pending s = urls cfg" "pending s = []"
      by (auto simp: invBook_def)
    then have "map url (tasks s) = urls cfg" by simp
    with returned_all_succeeded(3) [OF iv m]
    show "map url (tasks s) = urls cfg \<and> (\<forall>t \<in> set (tasks s). ret t = Some None)" by simp
  qed
  from 1 inputError_unfold [of cfg] 3 4 5 show ?thesis by blast
qed

theorem C4_error_propagation_witness:
  "observe main missingInput [Main] = Some (MReturned (Some noSuchFile))
   \<and> observe tasks missingInput [Main] = Some []
   \<and> observe sink missingInput [Main] = Some []
   \<and> inputError missingInput = Some noSuchFile"
proof -
  have o: "observe main missingInput [Main] = Some (MReturned (Some noSuchFile))"
    by (simp add: model_defs example_defs missingInput_def)
  then obtain s where e: "exec missingInput (initial missingInput) [Main] = Some s"
    and m: "main s = MReturned (Some noSuchFile)"
    by (auto simp: observe_def)
  from C4_error_propagation [OF e]
  have a: "\<forall>r. main s = MReturned r \<longrightarrow> r = inputError missingInput"
    and b: "\<forall>err. main s = MReturned (Some err) \<longrightarrow>
              tasks s = [] \<and> pending s = [] \<and> sink s = [] \<and> wg s = 0
              \<and> files s = initialFiles missingInput \<and> dirs s = {}"
    by blast+
  from a m have "inputError missingInput = Some noSuchFile" by simp
  moreover from b m have "tasks s = []" "sink s = []" by simp_all
  ultimately show ?thesis using e m by (simp add: observe_def)
qed

text \<open>
  C4 as stated fails: with two URLs that both fail, no success is reported. Where the
  \<open>Fatal\<close> printer terminates the program, the run ends at the first report, with the
  Action still in its loop; where it returns, both goroutines run to their end and the
  Action waits for ever in \<open>wg.Wait()\<close>.
\<close>

theorem C4_counterexample:
  "observe (map ret \<circ> tasks) (exampleConfig (listFile twoUrls) 2 allFail True)
     [Main, Main, Main, Main, Main, Main, Task 0, Task 0, Task 1, Task 1, Task 0]
     = Some [Some (Some connRefused), Some (Some connRefused)]
   \<and> observe main (exampleConfig (listFile twoUrls) 2 allFail True)
     [Main, Main, Main, Main, Main, Main, Task 0, Task 0, Task 1, Task 1, Task 0]
     = Some MLoop
   \<and> observe halted (exampleConfig (listFile twoUrls) 2 allFail True)
     [Main, Main, Main, Main, Main, Main, Task 0, Task 0, Task 1, Task 1, Task 0]
     = Some (Some FatalExit)
   \<and> observe (stuck (exampleConfig (listFile twoUrls) 2 allFail True))
     (exampleConfig (listFile twoUrls) 2 allFail True)
     [Main, Main, Main, Main, Main, Main, Task 0, Task 0, Task 1, Task 1, Task 0]
     = Some True
   \<and> observe (map ret \<circ> tasks) (exampleConfig (listFile twoUrls) 2 allFail False)
     [Main, Main, Main, Main, Main, Main, Task 0, Task 0, Task 0, Task 0,
      Task 1, Task 1, Task 1, Task 1, Main]
     = Some [Some (Some connRefused), Some (Some connRefused)]
   \<and> observe main (exampleConfig (listFile twoUrls) 2 allFail False)
     [Main, Main, Main, Main, Main, Main, Task 0, Task 0, Task 0, Task 0,
      Task 1, Task 1, Task 1, Task 1, Main]
     = Some MWait
   \<and> observe (stuck (exampleConfig (listFile twoUrls) 2 allFail False))
     (exampleConfig (listFile twoUrls) 2 allFail False)
     [Main, Main, Main, Main, Main, Main, Task 0, Task 0, Task 0, Task 0,
      Task 1, Task 1, Task 1, Task 1, Main]
     = Some True"
  by (intro conjI; simp add: model_defs example_defs twoUrls_def)

lemma downloadFile_status:
  assumes "get w = Inr r" "StatusCode r \<noteq> StatusOK"
  shows "downloadFile w URL dir s =
     (case downloadFile (w\<lparr>get := Inr (r\<lparr>StatusCode := StatusOK\<rparr>)\<rparr>) URL dir s of
        (err, s') \<Rightarrow> (err, s'\<lparr>sink := sink s @ [ErrorNotice URL (StatusCode r)]\<rparr>))"
  using assms
  by (simp add: downloadFile_def Let_def split: option.split prod.split)

text \<open>
  C5. For a response whose status is not 200, \<open>downloadFile\<close> prints the diagnostic
  and otherwise does what it does for the same response with status 200: it returns
  the same value and leaves the same files. In particular, when the directory, the
  file and the copy succeed, it returns \<open>nil\<close> and the destination holds the body.
\<close>

theorem C5_status_is_soft:
  assumes "get w = Inr r" and "StatusCode r \<noteq> StatusOK"
  shows "sink (snd (downloadFile w URL dir s)) = sink s @ [ErrorNotice URL (StatusCode r)]
       \<and> fst (downloadFile w URL dir s)
           = fst (downloadFile (w\<lparr>get := Inr (r\<lparr>StatusCode := StatusOK\<rparr>)\<rparr>) URL dir s)
       \<and> files (snd (downloadFile w URL dir s))
           = files (snd (downloadFile (w\<lparr>get := Inr (r\<lparr>StatusCode := StatusOK\<rparr>)\<rparr>) URL dir s))
       \<and> ((dir \<noteq> [] \<longrightarrow> mkdirAll w = None) \<and> create w = None \<and> copy w = None
            \<longrightarrow> fst (downloadFile w URL dir s) = None
              \<and> files (snd (downloadFile w URL dir s)) (destination dir URL) = Some (Body r))"
proof -
  let ?w = "w\<lparr>get := Inr (r\<lparr>StatusCode := StatusOK\<rparr>)\<rparr>"
  obtain err s' where d: "downloadFile ?w URL dir s = (err, s')"
    by (cases "downloadFile ?w URL dir s")
  from downloadFile_status [OF assms, of URL dir s] d
  have e: "downloadFile w URL dir s = (err, s'\<lparr>sink := sink s @ [ErrorNotice URL (StatusCode r)]\<rparr>)"
    by simp
  have 4: "(dir \<noteq> [] \<longrightarrow> mkdirAll w = None) \<and> create w = None \<and> copy w = None
            \<longrightarrow> fst (downloadFile w URL dir s) = None
              \<and> files (snd (downloadFile w URL dir s)) (destination dir URL) = Some (Body r)"
    using assms by (auto simp: downloadFile_def Let_def destination_def)
  from d e 4 show ?thesis by simp
qed

theorem C5_status_is_soft_witness:
  "fst (downloadFile (okIO 404 ''not found'') ''http://h/a'' ''out'' (initial missingInput)) = None
   \<and> files (snd (downloadFile (okIO 404 ''not found'') ''http://h/a'' ''out'' (initial missingInput)))
        ''out/a'' = Some ''not found''
   \<and> sink (snd (downloadFile (okIO 404 ''not found'') ''http://h/a'' ''out'' (initial missingInput)))
        = [ErrorNotice ''http://h/a'' 404]"
proof -
  let ?w = "okIO 404 ''not found''"
  let ?r = "\<lparr>StatusCode = 404, Body = ''not found''\<rparr>"
  have g: "get ?w = Inr ?r" by (simp add: okIO_def)
  have c: "StatusCode ?r \<noteq> StatusOK" by (simp add: StatusOK_def)
  have ok: "(''out'' \<noteq> [] \<longrightarrow> mkdirAll ?w = None) \<and> create ?w = None \<and> copy ?w = None"
    by (simp add: okIO_def)
  have dst: "destination ''out'' ''http://h/a'' = ''out/a''"
    by (simp add: destination_def model_defs)
  have sk: "sink (initial missingInput) = []" by (simp add: initial_def)
  let ?d = "downloadFile ?w ''http://h/a'' ''out'' (initial missingInput)"
  from C5_status_is_soft [OF g c, of "''http://h/a''" "''out''" "initial missingInput"] ok
  have "sink (snd ?d) = sink (initial missingInput) @ [ErrorNotice ''http://h/a'' (StatusCode ?r)]"
    and "fst ?d = None"
    and "files (snd ?d) (destination ''out'' ''http://h/a'') = Some (Body ?r)"
    by blast+
  with dst sk show ?thesis by simp
qed

lemma noTasks_fire:
  assumes "invGuard cfg s" "concurrent cfg \<le> 0" "tasks s = []" "fire cfg s a = Some s'"
  shows "tasks s' = []"
proof (cases a)
  case Main
  with assms(4) have m: "mainStep cfg s = Some s'" by (simp add: fire_def split: if_splits)
  from assms(1,2) have "main s \<noteq> MSpawn" by (auto simp: invGuard_def)
  from mainStep_frame(1) [OF m this] assms(3) show ?thesis by simp
next
  case (Task i)
  with assms(4) have "taskStep cfg s i = Some s'" by (simp add: fire_def split: if_splits)
  from taskStep_index [OF this] assms(3) show ?thesis by simp
qed

lemma noTasks_reachable:
  assumes "exec cfg (initial cfg) sched = Some s" "concurrent cfg \<le> 0"
  shows "tasks s = []"
proof -
  have "inv cfg s \<and> tasks s = []"
  proof (rule exec_invariant [OF assms(1)])
    show "inv cfg (initial cfg) \<and> tasks (initial cfg) = []"
      by (simp add: inv_initial) (simp add: initial_def)
  next
    fix s a s' assume "inv cfg s \<and> tasks s = []" "fire cfg s a = Some s'"
    then show "inv cfg s' \<and> tasks s' = []"
      using inv_fire [of cfg s a s'] noTasks_fire [of cfg s a s'] assms(2)
      by (simp add: inv_def)
  qed
  then show ?thesis by simp
qed

lemma negative_never_loops:
  assumes "exec cfg (initial cfg) sched = Some s" "concurrent cfg < 0"
  shows "main s = MStart \<or> main s = MMake \<or> (\<exists>err. main s = MReturned (Some err))"
proof -
  let ?P = "\<lambda>s. main s = MStart \<or> main s = MMake \<or> (\<exists>err. main s = MReturned (Some err))"
  have "?P s \<and> tasks s = []"
  proof (rule exec_invariant [OF assms(1)])
    show "?P (initial cfg) \<and> tasks (initial cfg) = []" by (simp add: initial_def)
  next
    fix s a s' assume p: "?P s \<and> tasks s = []" and f: "fire cfg s a = Some s'"
    show "?P s' \<and> tasks s' = []"
    proof (cases a)
      case Main
      with f have m: "mainStep cfg s = Some s'" by (simp add: fire_def split: if_splits)
      from p have "main s \<noteq> MSpawn" by auto
      from mainStep_frame(1) [OF m this] p have t: "tasks s' = []" by simp
      from p consider (S) "main s = MStart" | (M) "main s = MMake"
        | (R) err where "main s = MReturned (Some err)" by blast
      then have "?P s'"
      proof cases
        case S
        with m show ?thesis by (cases "inputError cfg") (auto simp: mainStep_MStart)
      next
        case M
        with m assms(2) show ?thesis by (auto simp: mainStep_def)
      next
        case R
        with m show ?thesis by (simp add: mainStep_def)
      qed
      with t show ?thesis by simp
    next
      case (Task i)
      with f have "taskStep cfg s i = Some s'" by (simp add: fire_def split: if_splits)
      from taskStep_index [OF this] p show ?thesis by simp
    qed
  qed
  then show ?thesis by simp
qed

lemma task_enabled:
  assumes "inv cfg s" "halted s = None" "i < length (tasks s)" "pc (tasks s ! i) \<noteq> TDone"
    "1 \<le> concurrent cfg" "pc (tasks s ! i) = TDownload \<longrightarrow> \<not> hangs cfg i"
  shows "\<exists>s'. fire cfg s (Task i) = Some s'"
proof (cases "pc (tasks s ! i)")
  case TStart
  with assms(2,3) show ?thesis by (simp add: fire_def taskStep_TStart)
next
  case TDownload
  obtain e s1 where "downloadFile (answers cfg i) (url (tasks s ! i)) (outputDir cfg) s = (e, s1)"
    by (cases "downloadFile (answers cfg i) (url (tasks s ! i)) (outputDir cfg) s")
  with TDownload assms(2,3,6) show ?thesis by (simp add: fire_def taskStep_TDownload)
next
  case TReport
  from assms(3) have "tasks s ! i \<in> set (tasks s)" by simp
  with assms(1) TReport have "ret (tasks s ! i) \<noteq> None"
    unfolding inv_def invRet_def by auto
  with TReport assms(2,3) show ?thesis
    by (auto simp: fire_def taskStep_TReport split: option.splits)
next
  case TRelease
  have "0 < inFlight s"
    using count_pos [of i "tasks s" "\<lambda>t. pc t \<noteq> TDone"] assms(3,4) by (simp add: inFlight_def)
  with assms(1) have "0 < guard s" by (simp add: inv_def invGuard_def)
  with TRelease assms(2,3,5) show ?thesis by (simp add: fire_def taskStep_TRelease)
next
  case TDone
  with assms(4) show ?thesis by simp
qed

text \<open>
  C6, as amended. The concurrency value is not clamped: it is the capacity of the
  channel as given. A negative value makes \<open>make\<close> panic: the second step of a run
  whose list was read ends the program, and the loop is never reached. With 0 no
  goroutine is ever started, the send of the first URL blocks with no step left for
  anyone, and a run with a list that is not empty never reaches \<open>wg.Wait()\<close>. From 1
  on, while the program has not been ended (by the \<open>Fatal\<close> printer or a panic) and the
  Action is before or in its loop, some goroutine can take a step, unless all permits
  are held by goroutines whose transfer never returns. With a value of at least the
  number of URLs a slot of the channel is free whenever the loop has a URL to send, so
  the loop never waits for a permit.
\<close>

theorem C6_concurrency_unclamped:
  assumes "exec cfg (initial cfg) sched = Some s"
  shows "(concurrent cfg \<le> 0 \<longrightarrow> tasks s = [] \<and> main s \<noteq> MSpawn)
       \<and> (concurrent cfg \<le> 0 \<and> urls cfg \<noteq> [] \<longrightarrow> main s \<noteq> MWait \<and> main s \<noteq> MReturned None)
       \<and> (concurrent cfg < 0 \<longrightarrow> main s \<noteq> MLoop)
       \<and> (concurrent cfg < 0 \<and> inputError cfg = None
            \<longrightarrow> observe halted cfg [Main, Main] = Some (Some Panic)
              \<and> observe tasks cfg [Main, Main] = Some [])
       \<and> (concurrent cfg = 0 \<and> main s = MLoop \<and> pending s \<noteq> [] \<longrightarrow> (\<forall>a. fire cfg s a = None))
       \<and> (1 \<le> concurrent cfg \<and> halted s = None
            \<and> (main s = MStart \<or> main s = MMake \<or> main s = MLoop \<or> main s = MSpawn)
            \<longrightarrow> (\<exists>a s'. fire cfg s a = Some s')
              \<or> (int (inFlight s) = concurrent cfg
                  \<and> (\<forall>i < length (tasks s). pc (tasks s ! i) \<noteq> TDone
                        \<longrightarrow> pc (tasks s ! i) = TDownload \<and> hangs cfg i)))
       \<and> (int (length (urls cfg)) \<le> concurrent cfg \<and> main s = MLoop \<and> pending s \<noteq> []
            \<longrightarrow> int (guard s) < concurrent cfg)
       \<and> (int (length (urls cfg)) \<le> concurrent cfg \<and> main s = MLoop \<and> halted s = None
            \<longrightarrow> (\<exists>s'. fire cfg s Main = Some s'))"
proof -
  note iv = inv_reachable [OF assms]
  then have g: "invGuard cfg s" and b: "invBook cfg s" by (simp_all add: inv_def)
  from g have ga: "guard s = inFlight s + (if main s = MSpawn then 1 else 0)"
    and gb: "int (guard s) \<le> max 0 (concurrent cfg)"
    by (simp_all add: invGuard_def)
  have 1: "concurrent cfg \<le> 0 \<longrightarrow> tasks s = [] \<and> main s \<noteq> MSpawn"
    using noTasks_reachable [OF assms] ga gb by auto
  have 2: "concurrent cfg \<le> 0 \<and> urls cfg \<noteq> [] \<longrightarrow> main s \<noteq> MWait \<and> main s \<noteq> MReturned None"
  proof (intro impI, elim conjE)
    assume n: "concurrent cfg \<le> 0" and u: "urls cfg \<noteq> []"
    from 1 n have t: "tasks s = []" by simp
    show "main s \<noteq> MWait \<and> main s \<noteq> MReturned None"
    proof (rule ccontr)
      assume "\<not> (main s \<noteq> MWait \<and> main s \<noteq> MReturned None)"
      then have m: "main s = MWait \<or> main s = MReturned None" by blast
      with b have "pending s = []" "map url (tasks s) @ pending s = urls cfg"
        by (auto simp: invBook_def)
      with t u show False by simp
    qed
  qed
  have 3: "concurrent cfg < 0 \<longrightarrow> main s \<noteq> MLoop"
    using negative_never_loops [OF assms] by auto
  have 4: "concurrent cfg < 0 \<and> inputError cfg = None
            \<longrightarrow> observe halted cfg [Main, Main] = Some (Some Panic)
              \<and> observe tasks cfg [Main, Main] = Some []"
    by (simp add: observe_def fire_def mainStep_MStart initial_def) (simp add: mainStep_def)
  have 5: "concurrent cfg = 0 \<and> main s = MLoop \<and> pending s \<noteq> [] \<longrightarrow> (\<forall>a. fire cfg s a = None)"
  proof (intro impI allI, elim conjE)
    fix a assume n: "concurrent cfg = 0" and m: "main s = MLoop" and p: "pending s \<noteq> []"
    from 1 n have t: "tasks s = []" by simp
    show "fire cfg s a = None"
    proof (cases a)
      case Main
      with n m p show ?thesis by (simp add: fire_def mainStep_def)
    next
      case (Task i)
      with t show ?thesis by (simp add: fire_def taskStep_def)
    qed
  qed
  have 6: "1 \<le> concurrent cfg \<and> halted s = None
            \<and> (main s = MStart \<or> main s = MMake \<or> main s = MLoop \<or> main s = MSpawn)
            \<longrightarrow> (\<exists>a s'. fire cfg s a = Some s')
              \<or> (int (inFlight s) = concurrent cfg
                  \<and> (\<forall>i < length (tasks s). pc (tasks s ! i) \<noteq> TDone
                        \<longrightarrow> pc (tasks s ! i) = TDownload \<and> hangs cfg i))"
  proof (intro impI, elim conjE)
    assume n: "1 \<le> concurrent cfg" and h: "halted s = None"
      and m: "main s = MStart \<or> main s = MMake \<or> main s = MLoop \<or> main s = MSpawn"
    let ?starved = "int (inFlight s) = concurrent cfg
                  \<and> (\<forall>i < length (tasks s). pc (tasks s ! i) \<noteq> TDone
                        \<longrightarrow> pc (tasks s ! i) = TDownload \<and> hangs cfg i)"
    from m consider (S) "main s = MStart" | (M) "main s = MMake" | (P) "main s = MSpawn"
      | (L) "main s = MLoop" "pending s = [] \<or> int (guard s) < concurrent cfg"
      | (B) "main s = MLoop" "pending s \<noteq> []" "concurrent cfg \<le> int (guard s)"
      by fastforce
    then show "(\<exists>a s'. fire cfg s a = Some s') \<or> ?starved"
    proof cases
      case S
      with h have "\<exists>s'. fire cfg s Main = Some s'"
        by (cases "inputError cfg") (simp_all add: fire_def mainStep_MStart)
      then show ?thesis by blast
    next
      case M
      with h have "\<exists>s'. fire cfg s Main = Some s'" by (simp add: fire_def mainStep_def)
      then show ?thesis by blast
    next
      case P
      with b obtain URL rest where "pending s = URL # rest"
        by (cases "pending s") (auto simp: invBook_def)
      with P h have "\<exists>s'. fire cfg s Main = Some s'" by (simp add: fire_def mainStep_MSpawn)
      then show ?thesis by blast
    next
      case L
      with h have "\<exists>s'. fire cfg s Main = Some s'" by (auto simp: fire_def mainStep_def)
      then show ?thesis by blast
    next
      case B
      with n ga gb have full: "int (inFlight s) = concurrent cfg" by simp
      show ?thesis
      proof (cases "\<forall>i < length (tasks s). pc (tasks s ! i) \<noteq> TDone
                        \<longrightarrow> pc (tasks s ! i) = TDownload \<and> hangs cfg i")
        case True
        with full show ?thesis by blast
      next
        case False
        then obtain i where i: "i < length (tasks s)" "pc (tasks s ! i) \<noteq> TDone"
          and nh: "pc (tasks s ! i) = TDownload \<longrightarrow> \<not> hangs cfg i"
          by blast
        from task_enabled [OF iv h i n nh] show ?thesis by blast
      qed
    qed
  qed
  have 7: "int (length (urls cfg)) \<le> concurrent cfg \<and> main s = MLoop \<and> pending s \<noteq> []
            \<longrightarrow> int (guard s) < concurrent cfg"
  proof (intro impI, elim conjE)
    assume n: "int (length (urls cfg)) \<le> concurrent cfg" and m: "main s = MLoop"
      and p: "pending s \<noteq> []"
    from m have st: "started (main s)" by simp
    from book_lengths [OF b st] p have "length (tasks s) < length (urls cfg)"
      by (cases "pending s") simp_all
    with inFlight_le_length [of s] ga m n show "int (guard s) < concurrent cfg" by simp
  qed
  have 8: "int (length (urls cfg)) \<le> concurrent cfg \<and> main s = MLoop \<and> halted s = None
            \<longrightarrow> (\<exists>s'. fire cfg s Main = Some s')"
  proof (intro impI, elim conjE)
    assume n: "int (length (urls cfg)) \<le> concurrent cfg" and m: "main s = MLoop"
      and h: "halted s = None"
    show "\<exists>s'. fire cfg s Main = Some s'"
    proof (cases "pending s = []")
      case True
      with m h show ?thesis by (simp add: fire_def mainStep_def)
    next
      case False
      with 7 n m have "int (guard s) < concurrent cfg" by simp
      with m h False show ?thesis by (simp add: fire_def mainStep_def)
    qed
  qed
  from 1 2 3 4 5 6 7 8 show ?thesis by blast
qed

theorem C6_concurrency_unclamped_witness:
  "(\<exists>s. exec (exampleConfig (listFile oneUrl) 0 allOk True)
           (initial (exampleConfig (listFile oneUrl) 0 allOk True)) [Main, Main] = Some s
        \<and> main s = MLoop \<and> pending s = [''http://h/a'']
        \<and> fire (exampleConfig (listFile oneUrl) 0 allOk True) s Main = None
        \<and> fire (exampleConfig (listFile oneUrl) 0 allOk True) s (Task 0) = None)
   \<and> (\<exists>s s'. exec (exampleConfig (listFile twoUrls) 2 allOk True)
           (initial (exampleConfig (listFile twoUrls) 2 allOk True)) [Main, Main, Main, Main] = Some s
        \<and> main s = MLoop \<and> int (guard s) < 2
        \<and> fire (exampleConfig (listFile twoUrls) 2 allOk True) s Main = Some s')
   \<and> (\<exists>s a s'. exec (exampleConfig (listFile twoUrls) 1 allOk True)
           (initial (exampleConfig (listFile twoUrls) 1 allOk True)) [Main, Main, Main, Main] = Some s
        \<and> main s = MLoop \<and> guard s = 1
        \<and> fire (exampleConfig (listFile twoUrls) 1 allOk True) s a = Some s')
   \<and> observe halted (exampleConfig (listFile oneUrl) (- 1) allOk True) [Main, Main]
       = Some (Some Panic)"
proof -
  let ?c0 = "exampleConfig (listFile oneUrl) 0 allOk True"
  let ?c2 = "exampleConfig (listFile twoUrls) 2 allOk True"
  let ?c1 = "exampleConfig (listFile twoUrls) 1 allOk True"
  let ?cn = "exampleConfig (listFile oneUrl) (- 1) allOk True"
  have "observe (\<lambda>s. (main s, pending s)) ?c0 [Main, Main] = Some (MLoop, [''http://h/a''])"
    by (simp add: model_defs example_defs oneUrl_def)
  then obtain s0 where e0: "exec ?c0 (initial ?c0) [Main, Main] = Some s0"
    and m0: "main s0 = MLoop" "pending s0 = [''http://h/a'']"
    by (auto simp: observe_def)
  have n0: "concurrent ?c0 = 0" by (simp add: exampleConfig_def)
  from C6_concurrency_unclamped [OF e0] n0 m0
  have a: "\<forall>a. fire ?c0 s0 a = None" by simp
  have "observe (\<lambda>s. (main s, halted s, pending s)) ?c2 [Main, Main, Main, Main]
        = Some (MLoop, None, [''http://h/b''])"
    by (simp add: model_defs example_defs twoUrls_def)
  then obtain s2 where e2: "exec ?c2 (initial ?c2) [Main, Main, Main, Main] = Some s2"
    and m2: "main s2 = MLoop" "halted s2 = None" "pending s2 = [''http://h/b'']"
    by (auto simp: observe_def)
  have n2: "int (length (urls ?c2)) \<le> concurrent ?c2" "concurrent ?c2 = 2"
    by (simp_all add: urls_def model_defs example_defs twoUrls_def)
  from C6_concurrency_unclamped [OF e2] n2(1) m2
  have "int (guard s2) < concurrent ?c2" and "\<exists>s'. fire ?c2 s2 Main = Some s'" by simp_all
  with n2(2) obtain s2' where b: "int (guard s2) < 2" "fire ?c2 s2 Main = Some s2'" by auto
  have "observe (\<lambda>s. (main s, halted s, guard s, map pc (tasks s))) ?c1 [Main, Main, Main, Main]
        = Some (MLoop, None, 1, [TStart])"
    by (simp add: model_defs example_defs twoUrls_def)
  then obtain s1 where e1: "exec ?c1 (initial ?c1) [Main, Main, Main, Main] = Some s1"
    and m1: "main s1 = MLoop" "halted s1 = None" "guard s1 = 1" "map pc (tasks s1) = [TStart]"
    by (auto simp: observe_def)
  from m1(4) have t1: "0 < length (tasks s1)" "pc (tasks s1 ! 0) = TStart"
    by (cases "tasks s1"; simp)+
  have n1: "1 \<le> concurrent ?c1" by (simp add: exampleConfig_def)
  from C6_concurrency_unclamped [OF e1] n1 m1(1,2)
  have "(\<exists>a s'. fire ?c1 s1 a = Some s')
        \<or> (int (inFlight s1) = concurrent ?c1
            \<and> (\<forall>i < length (tasks s1). pc (tasks s1 ! i) \<noteq> TDone
                  \<longrightarrow> pc (tasks s1 ! i) = TDownload \<and> hangs ?c1 i))"
    by blast
  with t1 obtain a1 s1' where c: "fire ?c1 s1 a1 = Some s1'" by auto
  have en: "inputError ?cn = None" "concurrent ?cn < 0"
    by (simp_all add: inputError_def model_defs example_defs oneUrl_def)
  have "observe (\<lambda>s. main s) ?cn [] = Some MStart" by (simp add: observe_def initial_def)
  then obtain sn where esn: "exec ?cn (initial ?cn) [] = Some sn" by (auto simp: observe_def)
  from C6_concurrency_unclamped [OF esn] en
  have d: "observe halted ?cn [Main, Main] = Some (Some Panic)" by blast
  from e0 m0 a e2 m2(1) b e1 m1(1,3) c d show ?thesis by blast
qed

text \<open>
  The exception in C6 is real: when the only permit is held by a transfer that never
  returns, the second URL stays pending and no goroutine has a step.
\<close>

lemma starved_fan_out:
  "observe pending hungConfig [Main, Main, Main, Main, Task 0] = Some [''http://h/b'']
   \<and> observe (map pc \<circ> tasks) hungConfig [Main, Main, Main, Main, Task 0] = Some [TDownload]
   \<and> observe halted hungConfig [Main, Main, Main, Main, Task 0] = Some None
   \<and> observe (stuck hungConfig) hungConfig [Main, Main, Main, Main, Task 0] = Some True"
  by (intro conjI; simp add: model_defs example_defs twoUrls_def hungConfig_def)

text \<open>
  C6 as stated fails: with concurrency 0 and one URL the run stops before the first
  dispatch, the URL still pending and no step possible; with concurrency -1 the run
  panics when it makes the channel.
\<close>

theorem C6_counterexample:
  "observe main (exampleConfig (listFile oneUrl) 0 allOk True) [Main, Main] = Some MLoop
   \<and> observe pending (exampleConfig (listFile oneUrl) 0 allOk True) [Main, Main]
       = Some [''http://h/a'']
   \<and> observe tasks (exampleConfig (listFile oneUrl) 0 allOk True) [Main, Main] = Some []
   \<and> observe (stuck (exampleConfig (listFile oneUrl) 0 allOk True))
        (exampleConfig (listFile oneUrl) 0 allOk True) [Main, Main] = Some True
   \<and> observe halted (exampleConfig (listFile oneUrl) (- 1) allOk True) [Main, Main]
       = Some (Some Panic)
   \<and> observe tasks (exampleConfig (listFile oneUrl) (- 1) allOk True) [Main, Main] = Some []"
  by (intro conjI; simp add: model_defs example_defs oneUrl_def)









lemma afterLastSlash_lastElement: "afterLastSlash u = lastElement u"
proof (induction u)
  case Nil
  then show ?case by (simp add: lastElement_def)
next
  case (Cons c cs)
  show ?case
  proof (cases "CHR ''/'' \<in> set cs")
    case True
    then have "CHR ''/'' \<in> set (rev cs)" "\<not> \<not> isPathSeparator CHR ''/''"
      by (simp_all add: isPathSeparator_def)
    then have "takeWhile (\<lambda>c. \<not> isPathSeparator c) (rev cs @ [c])
               = takeWhile (\<lambda>c. \<not> isPathSeparator c) (rev cs)"
      by (rule takeWhile_append1)
    with True Cons show ?thesis by (simp add: lastElement_def)
  next
    case False
    then have "\<And>x. x \<in> set (rev cs) \<Longrightarrow> \<not> isPathSeparator x"
      by (auto simp: isPathSeparator_def)
    then have "takeWhile (\<lambda>c. \<not> isPathSeparator c) (rev cs @ [c])
               = rev cs @ takeWhile (\<lambda>c. \<not> isPathSeparator c) [c]"
      by (rule takeWhile_append2)
    then have "lastElement (c # cs) = (if c = CHR ''/'' then cs else c # cs)"
      by (simp add: lastElement_def isPathSeparator_def)
    with False show ?thesis by simp
  qed
qed

lemma stripTrailing_id: "u \<noteq> [] \<Longrightarrow> last u \<noteq> CHR ''/'' \<Longrightarrow> stripTrailing u = u"
  by (cases u rule: rev_cases) (simp_all add: stripTrailing_def isPathSeparator_def)

lemma lastElement_nonempty: "u \<noteq> [] \<Longrightarrow> last u \<noteq> CHR ''/'' \<Longrightarrow> lastElement u \<noteq> []"
  by (cases u rule: rev_cases) (simp_all add: lastElement_def isPathSeparator_def)

lemma lastElement_no_slash: "CHR ''/'' \<notin> set (lastElement u)"
proof
  assume "CHR ''/'' \<in> set (lastElement u)"
  then have "CHR ''/'' \<in> set (takeWhile (\<lambda>c. \<not> isPathSeparator c) (rev u))"
    by (simp add: lastElement_def)
  from set_takeWhileD [OF this] show False by (simp add: isPathSeparator_def)
qed

lemma Base_plain: "u \<noteq> [] \<Longrightarrow> last u \<noteq> CHR ''/'' \<Longrightarrow> Base u = lastElement u"
  by (simp add: Base_def stripTrailing_id lastElement_nonempty)

lemma downloadFile_ok:
  assumes "get w = Inr r" "dir \<noteq> [] \<longrightarrow> mkdirAll w = None" "create w = None" "copy w = None"
  shows "fst (downloadFile w URL dir s) = None"
    and "files (snd (downloadFile w URL dir s)) = (files s)(destination dir URL \<mapsto> Body r)"
    and "dirs (snd (downloadFile w URL dir s)) = (if dir \<noteq> [] then insert dir (dirs s) else dirs s)"
  using assms by (auto simp: downloadFile_def Let_def destination_def)

text \<open>
  C8, as amended. For every URL that is not empty and does not end in \<open>/\<close>, the name
  of the output file is the text after the last \<open>/\<close> of the URL (the whole URL when it
  has none), so \<open>https://example.com/a/b/file.zip\<close> gives \<open>file.zip\<close>. The name holds
  no \<open>/\<close>: the file lies directly under the output directory, or under the working
  directory when the output directory is empty. When the directory, the file and the
  copy succeed, the call returns \<open>nil\<close>, the destination holds the body whatever it
  held before, and \<open>MkdirAll\<close> has made the output directory exactly when it is not
  empty.
\<close>

theorem C8_output_file:
  assumes "URL \<noteq> []" and "last URL \<noteq> CHR ''/''"
  shows "Base URL = afterLastSlash URL
       \<and> CHR ''/'' \<notin> set (Base URL)
       \<and> Base ''https://example.com/a/b/file.zip'' = ''file.zip''
       \<and> destination [] URL = afterLastSlash URL
       \<and> (outDir \<noteq> [] \<longrightarrow> destination outDir URL = outDir @ ''/'' @ afterLastSlash URL)
       \<and> (\<forall>w r. get w = Inr r \<and> (outDir \<noteq> [] \<longrightarrow> mkdirAll w = None)
                  \<and> create w = None \<and> copy w = None
            \<longrightarrow> fst (downloadFile w URL outDir s) = None
              \<and> files (snd (downloadFile w URL outDir s))
                  = (files s)(destination outDir URL \<mapsto> Body r)
              \<and> dirs (snd (downloadFile w URL outDir s))
                  = (if outDir \<noteq> [] then insert outDir (dirs s) else dirs s))"
proof -
  have 1: "Base URL = afterLastSlash URL"
    using assms by (simp add: Base_plain afterLastSlash_lastElement)
  have 2: "CHR ''/'' \<notin> set (Base URL)"
    using assms by (simp add: Base_plain lastElement_no_slash)
  have 3: "Base ''https://example.com/a/b/file.zip'' = ''file.zip''"
    by (simp add: Base_def lastElement_def stripTrailing_def isPathSeparator_def)
  have 4: "destination [] URL = afterLastSlash URL"
    using 1 by (simp add: destination_def FromSlash_def)
  have 5: "outDir \<noteq> [] \<longrightarrow> destination outDir URL = outDir @ ''/'' @ afterLastSlash URL"
    using 1 by (simp add: destination_def FromSlash_def PathSeparator_def)
  have 6: "\<forall>w r. get w = Inr r \<and> (outDir \<noteq> [] \<longrightarrow> mkdirAll w = None)
                  \<and> create w = None \<and> copy w = None
            \<longrightarrow> fst (downloadFile w URL outDir s) = None
              \<and> files (snd (downloadFile w URL outDir s))
                  = (files s)(destination outDir URL \<mapsto> Body r)
              \<and> dirs (snd (downloadFile w URL outDir s))
                  = (if outDir \<noteq> [] then insert outDir (dirs s) else dirs s)"
  proof (intro allI impI, elim conjE)
    fix w :: io and r :: response
    assume "get w = Inr r" "outDir \<noteq> [] \<longrightarrow> mkdirAll w = None" "create w = None" "copy w = None"
    from downloadFile_ok [OF this, of URL s]
    show "fst (downloadFile w URL outDir s) = None
              \<and> files (snd (downloadFile w URL outDir s))
                  = (files s)(destination outDir URL \<mapsto> Body r)
              \<and> dirs (snd (downloadFile w URL outDir s))
                  = (if outDir \<noteq> [] then insert outDir (dirs s) else dirs s)"
      by simp
  qed
  from 1 2 3 4 5 6 show ?thesis by blast
qed

theorem C8_output_file_witness:
  "Base ''https://example.com/a/b/file.zip'' = afterLastSlash ''https://example.com/a/b/file.zip''
   \<and> files (snd (downloadFile (okIO 200 ''new'') ''https://example.com/a/b/file.zip'' ''out''
                  staleFiles)) ''out/file.zip'' = Some ''new''
   \<and> dirs (snd (downloadFile (okIO 200 ''new'') ''https://example.com/a/b/file.zip'' ''out''
                  staleFiles)) = {''out''}"
proof -
  let ?u = "''https://example.com/a/b/file.zip''"
  let ?w = "okIO 200 ''new''"
  let ?r = "\<lparr>StatusCode = 200, Body = ''new''\<rparr>"
  have h: "?u \<noteq> []" "last ?u \<noteq> CHR ''/''" by simp_all
  have g: "get ?w = Inr ?r \<and> (''out'' \<noteq> [] \<longrightarrow> mkdirAll ?w = None)
           \<and> create ?w = None \<and> copy ?w = None"
    by (simp add: okIO_def)
  have a: "afterLastSlash ?u = ''file.zip''" by simp
  have d: "dirs staleFiles = {}" by (simp add: staleFiles_def initial_def)
  from C8_output_file [OF h, of "''out''" staleFiles] g
  have "Base ?u = afterLastSlash ?u"
    and "destination ''out'' ?u = ''out'' @ ''/'' @ afterLastSlash ?u"
    and "files (snd (downloadFile ?w ?u ''out'' staleFiles))
          = (files staleFiles)(destination ''out'' ?u \<mapsto> Body ?r)"
    and "dirs (snd (downloadFile ?w ?u ''out'' staleFiles))
          = (if ''out'' \<noteq> [] then insert ''out'' (dirs staleFiles) else dirs staleFiles)"
    by blast+
  with a d show ?thesis by simp
qed

text \<open>
  C8 as stated fails for a URL that ends in \<open>/\<close>: the text after its last \<open>/\<close> is
  empty, and the file is named after the segment before it.
\<close>

theorem C8_counterexample:
  "Base ''https://example.com/a/'' = ''a'' \<and> afterLastSlash ''https://example.com/a/'' = []"
  by (simp add: Base_def lastElement_def stripTrailing_def isPathSeparator_def)

lemma stripTrailing_slash: "stripTrailing (u @ ''/'') = stripTrailing u"
  by (simp add: stripTrailing_def isPathSeparator_def)

lemma stripTrailing_last:
  assumes "\<exists>c \<in> set u. c \<noteq> CHR ''/''"
  shows "stripTrailing u \<noteq> [] \<and> last (stripTrailing u) \<noteq> CHR ''/''"
proof -
  let ?d = "dropWhile isPathSeparator (rev u)"
  from assms have ne: "?d \<noteq> []"
    by (auto simp: dropWhile_eq_Nil_conv isPathSeparator_def)
  then have "\<not> isPathSeparator (hd ?d)" by (rule hd_dropWhile)
  with ne show ?thesis
    by (simp add: stripTrailing_def last_rev isPathSeparator_def)
qed

text \<open>
  C10. The name of the output file is never empty. A separator at the end of a URL is
  stripped before the last element is taken: a URL and the same URL followed by \<open>/\<close>
  give the same name, which for a URL with a character other than \<open>/\<close> is its last
  segment that is not empty (the host for \<open>https://host/\<close>) and holds no \<open>/\<close>. The
  value that \<open>downloadFile\<close> returns does not depend on the URL at all, so no error
  arises from a URL that ends in \<open>/\<close>: when the directory, the file and the copy
  succeed, the call returns \<open>nil\<close> and the body is stored under that name.
\<close>

theorem C10_name_never_empty:
  "Base URL \<noteq> []
   \<and> (URL \<noteq> [] \<longrightarrow> Base (URL @ ''/'') = Base URL)
   \<and> ((\<exists>c \<in> set URL. c \<noteq> CHR ''/'')
        \<longrightarrow> Base (URL @ ''/'') = lastElement (stripTrailing URL)
          \<and> CHR ''/'' \<notin> set (Base (URL @ ''/'')))
   \<and> Base ''https://host/'' = ''host''
   \<and> Base ''https://example.com/a/'' = ''a''
   \<and> fst (downloadFile w URL outDir s) = fst (downloadFile w other outDir s)
   \<and> (\<forall>r. get w = Inr r \<and> (outDir \<noteq> [] \<longrightarrow> mkdirAll w = None)
              \<and> create w = None \<and> copy w = None
        \<longrightarrow> fst (downloadFile w (URL @ ''/'') outDir s) = None
          \<and> files (snd (downloadFile w (URL @ ''/'') outDir s))
               (destination outDir (URL @ ''/'')) = Some (Body r))"
proof -
  have 1: "Base URL \<noteq> []" by (simp add: Base_def Let_def)
  have 2: "URL \<noteq> [] \<longrightarrow> Base (URL @ ''/'') = Base URL"
    by (simp add: Base_def stripTrailing_slash)
  have 3: "(\<exists>c \<in> set URL. c \<noteq> CHR ''/'')
        \<longrightarrow> Base (URL @ ''/'') = lastElement (stripTrailing URL)
          \<and> CHR ''/'' \<notin> set (Base (URL @ ''/''))"
  proof
    assume a: "\<exists>c \<in> set URL. c \<noteq> CHR ''/''"
    from stripTrailing_last [OF a]
    have "lastElement (stripTrailing URL) \<noteq> []" by (simp add: lastElement_nonempty)
    then have "Base (URL @ ''/'') = lastElement (stripTrailing URL)"
      by (simp add: Base_def stripTrailing_slash)
    then show "Base (URL @ ''/'') = lastElement (stripTrailing URL)
          \<and> CHR ''/'' \<notin> set (Base (URL @ ''/''))"
      by (simp add: lastElement_no_slash)
  qed
  have 4: "Base ''https://host/'' = ''host''" "Base ''https://example.com/a/'' = ''a''"
    by (simp_all add: Base_def lastElement_def stripTrailing_def isPathSeparator_def)
  have 5: "fst (downloadFile w URL outDir s) = fst (downloadFile w other outDir s)"
    by (simp add: downloadFile_def Let_def split: sum.split option.split prod.split)
  have 6: "\<forall>r. get w = Inr r \<and> (outDir \<noteq> [] \<longrightarrow> mkdirAll w = None)
              \<and> create w = None \<and> copy w = None
        \<longrightarrow> fst (downloadFile w (URL @ ''/'') outDir s) = None
          \<and> files (snd (downloadFile w (URL @ ''/'') outDir s))
               (destination outDir (URL @ ''/'')) = Some (Body r)"
  proof (intro allI impI, elim conjE)
    fix r :: response
    assume "get w = Inr r" "outDir \<noteq> [] \<longrightarrow> mkdirAll w = None" "create w = None" "copy w = None"
    from downloadFile_ok(1,2) [OF this, of "URL @ ''/''" s]
    show "fst (downloadFile w (URL @ ''/'') outDir s) = None
          \<and> files (snd (downloadFile w (URL @ ''/'') outDir s))
               (destination outDir (URL @ ''/'')) = Some (Body r)"
      by simp
  qed
  from 1 2 3 4 5 6 show ?thesis by blast
qed

theorem C10_name_never_empty_witness:
  "Base (''https://host/dir'' @ ''/'') = ''dir''
   \<and> fst (downloadFile (okIO 200 ''index'') (''https://host/dir'' @ ''/'') ''out''
             (initial missingInput)) = None
   \<and> files (snd (downloadFile (okIO 200 ''index'') (''https://host/dir'' @ ''/'') ''out''
             (initial missingInput))) ''out/dir'' = Some ''index''"
proof -
  let ?u = "''https://host/dir''"
  let ?w = "okIO 200 ''index''"
  let ?r = "\<lparr>StatusCode = 200, Body = ''index''\<rparr>"
  have n: "?u \<noteq> []" "\<exists>c \<in> set ?u. c \<noteq> CHR ''/''" by simp_all
  have b: "Base ?u = ''dir''"
    by (simp add: Base_def lastElement_def stripTrailing_def isPathSeparator_def)
  have g: "get ?w = Inr ?r \<and> (''out'' \<noteq> [] \<longrightarrow> mkdirAll ?w = None)
           \<and> create ?w = None \<and> copy ?w = None"
    by (simp add: okIO_def)
  from C10_name_never_empty [of ?u ?w "''out''" "initial missingInput"] n g
  have c: "Base (?u @ ''/'') = Base ?u"
    and d: "fst (downloadFile ?w (?u @ ''/'') ''out'' (initial missingInput)) = None"
    and e: "files (snd (downloadFile ?w (?u @ ''/'') ''out'' (initial missingInput)))
               (destination ''out'' (?u @ ''/'')) = Some (Body ?r)"
    by blast+
  from b c have f: "destination ''out'' (?u @ ''/'') = ''out/dir''"
    by (simp add: destination_def FromSlash_def PathSeparator_def)
  from b c d e f show ?thesis by simp
qed

lemma task_progress_step:
  assumes "invGuard cfg s" "taskStep cfg s i = Some s'"
  shows "(pc (tasks s ! i) = TStart
            \<longrightarrow> pbTitle s' = Base (url (tasks s ! i)) \<and> pbCurrent s' = pbCurrent s)
       \<and> (pc (tasks s ! i) \<noteq> TStart \<longrightarrow> pbTitle s' = pbTitle s)
       \<and> (pc (tasks s ! i) = TReport \<and> halted s' = None \<and> halted s = None
            \<longrightarrow> pbCurrent s' = Suc (pbCurrent s))
       \<and> (pc (tasks s ! i) \<noteq> TReport \<longrightarrow> pbCurrent s' = pbCurrent s)"
proof -
  note i = taskStep_index [OF assms(2)]
  let ?t = "tasks s ! i"
  show ?thesis
  proof (cases "pc ?t")
    case TStart
    with assms(2) i
    have "s' = setTask (s\<lparr>pbTitle := Base (url ?t)\<rparr>) i (?t\<lparr>pc := TDownload\<rparr>)"
      by (simp add: taskStep_TStart)
    with TStart show ?thesis by simp
  next
    case TDownload
    obtain e s1 where d: "downloadFile (answers cfg i) (url ?t) (outputDir cfg) s = (e, s1)"
      by (cases "downloadFile (answers cfg i) (url ?t) (outputDir cfg) s")
    note fr = downloadFile_frame [OF d]
    from assms(2) i TDownload d
    have "s' = (if wg s1 < 0
             then (setTask s1 i (?t\<lparr>pc := TReport, ret := Some e\<rparr>))\<lparr>halted := Some Panic\<rparr>
             else setTask s1 i (?t\<lparr>pc := TReport, ret := Some e\<rparr>))"
      by (simp add: taskStep_TDownload split: if_splits)
    with TDownload fr(6,7) show ?thesis by simp
  next
    case TReport
    from report_step [OF assms(2) TReport] TReport show ?thesis by auto
  next
    case TRelease
    from release_step [OF assms(1,2) TRelease] TRelease show ?thesis by simp
  next
    case TDone
    with assms(2) show ?thesis by (simp add: taskStep_TDone)
  qed
qed

lemma task_progress_enabled:
  assumes "invRet s" "halted s = None" "i < length (tasks s)"
  shows "(pc (tasks s ! i) = TStart
            \<longrightarrow> (\<exists>s'. fire cfg s (Task i) = Some s' \<and> halted s' = None
                    \<and> pbTitle s' = Base (url (tasks s ! i)) \<and> pc (tasks s' ! i) = TDownload))
       \<and> (pc (tasks s ! i) = TDownload \<and> \<not> hangs cfg i
            \<longrightarrow> (\<exists>s'. fire cfg s (Task i) = Some s' \<and> pc (tasks s' ! i) = TReport
                    \<and> ret (tasks s' ! i)
                        = Some (fst (downloadFile (answers cfg i) (url (tasks s ! i))
                                       (outputDir cfg) s))))
       \<and> (pc (tasks s ! i) = TReport \<and> ret (tasks s ! i) = Some None
            \<longrightarrow> (\<exists>s'. fire cfg s (Task i) = Some s' \<and> halted s' = None
                    \<and> pbCurrent s' = Suc (pbCurrent s) \<and> pc (tasks s' ! i) = TRelease))
       \<and> (pc (tasks s ! i) = TReport \<and> ret (tasks s ! i) \<noteq> Some None \<and> fatalExits cfg
            \<longrightarrow> (\<exists>s'. fire cfg s (Task i) = Some s' \<and> halted s' = Some FatalExit
                    \<and> pbCurrent s' = pbCurrent s \<and> pc (tasks s' ! i) = TReport))
       \<and> (pc (tasks s ! i) = TReport \<and> ret (tasks s ! i) \<noteq> Some None \<and> \<not> fatalExits cfg
            \<longrightarrow> (\<exists>s'. fire cfg s (Task i) = Some s' \<and> halted s' = None
                    \<and> pbCurrent s' = Suc (pbCurrent s) \<and> pc (tasks s' ! i) = TRelease))"
proof -
  let ?t = "tasks s ! i"
  have 1: "pc ?t = TStart
            \<longrightarrow> (\<exists>s'. fire cfg s (Task i) = Some s' \<and> halted s' = None
                    \<and> pbTitle s' = Base (url ?t) \<and> pc (tasks s' ! i) = TDownload)"
    using assms(2,3) by (simp add: fire_def taskStep_TStart)
  have 2: "pc ?t = TDownload \<and> \<not> hangs cfg i
            \<longrightarrow> (\<exists>s'. fire cfg s (Task i) = Some s' \<and> pc (tasks s' ! i) = TReport
                    \<and> ret (tasks s' ! i)
                        = Some (fst (downloadFile (answers cfg i) (url ?t) (outputDir cfg) s)))"
  proof (intro impI, elim conjE)
    assume d: "pc ?t = TDownload" and h: "\<not> hangs cfg i"
    obtain e s1 where r: "downloadFile (answers cfg i) (url ?t) (outputDir cfg) s = (e, s1)"
      by (cases "downloadFile (answers cfg i) (url ?t) (outputDir cfg) s")
    note fr = downloadFile_frame [OF r]
    from assms(2,3) d h r fr(1)
    show "\<exists>s'. fire cfg s (Task i) = Some s' \<and> pc (tasks s' ! i) = TReport
                    \<and> ret (tasks s' ! i)
                        = Some (fst (downloadFile (answers cfg i) (url ?t) (outputDir cfg) s))"
      by (simp add: fire_def taskStep_TDownload)
  qed
  have 3: "pc ?t = TReport \<and> ret ?t = Some None
            \<longrightarrow> (\<exists>s'. fire cfg s (Task i) = Some s' \<and> halted s' = None
                    \<and> pbCurrent s' = Suc (pbCurrent s) \<and> pc (tasks s' ! i) = TRelease)"
    using assms(2,3) by (simp add: fire_def taskStep_TReport)
  have nn: "pc ?t = TReport \<Longrightarrow> ret ?t \<noteq> Some None \<Longrightarrow> \<exists>err. ret ?t = Some (Some err)"
  proof -
    assume r: "pc ?t = TReport" and n: "ret ?t \<noteq> Some None"
    from assms(3) have "?t \<in> set (tasks s)" by simp
    with assms(1) r have "ret ?t \<noteq> None" unfolding invRet_def by auto
    with n show "\<exists>err. ret ?t = Some (Some err)" by (cases "ret ?t") auto
  qed
  have 4: "pc ?t = TReport \<and> ret ?t \<noteq> Some None \<and> fatalExits cfg
            \<longrightarrow> (\<exists>s'. fire cfg s (Task i) = Some s' \<and> halted s' = Some FatalExit
                    \<and> pbCurrent s' = pbCurrent s \<and> pc (tasks s' ! i) = TReport)"
  proof (intro impI, elim conjE)
    assume r: "pc ?t = TReport" and n: "ret ?t \<noteq> Some None" and f: "fatalExits cfg"
    from nn [OF r n] obtain err where "ret ?t = Some (Some err)" by blast
    with assms(2,3) r f
    show "\<exists>s'. fire cfg s (Task i) = Some s' \<and> halted s' = Some FatalExit
                    \<and> pbCurrent s' = pbCurrent s \<and> pc (tasks s' ! i) = TReport"
      by (simp add: fire_def taskStep_TReport)
  qed
  have 5: "pc ?t = TReport \<and> ret ?t \<noteq> Some None \<and> \<not> fatalExits cfg
            \<longrightarrow> (\<exists>s'. fire cfg s (Task i) = Some s' \<and> halted s' = None
                    \<and> pbCurrent s' = Suc (pbCurrent s) \<and> pc (tasks s' ! i) = TRelease)"
  proof (intro impI, elim conjE)
    assume r: "pc ?t = TReport" and n: "ret ?t \<noteq> Some None" and f: "\<not> fatalExits cfg"
    from nn [OF r n] obtain err where "ret ?t = Some (Some err)" by blast
    with assms(2,3) r f
    show "\<exists>s'. fire cfg s (Task i) = Some s' \<and> halted s' = None
                    \<and> pbCurrent s' = Suc (pbCurrent s) \<and> pc (tasks s' ! i) = TRelease"
      by (simp add: fire_def taskStep_TReport)
  qed
  from 1 2 3 4 5 show ?thesis by blast
qed

text \<open>
  C9, as amended. The counter of the progress bar is the number of goroutines that are
  past \<open>pb.Increment()\<close>: it advances once per goroutine, in the report step that
  follows the return of \<open>downloadFile\<close>, and in no other step. While the program has not
  been ended, a goroutine at its report can always take that step: after a call that
  returned \<open>nil\<close> the step advances the counter by one and does not end the program;
  after a call that returned an error the step ends the program without advancing the
  counter where the \<open>Fatal\<close> printer terminates the program, and advances the counter
  only where that printer returns. The label is set to the base name of the URL by the
  first step of a goroutine, which is always possible while the program has not been
  ended and comes before the transfer, and by no later step.
\<close>

theorem C9_progress_indicator:
  assumes "exec cfg (initial cfg) sched = Some s"
  shows "pbCurrent s = advanced s
       \<and> (\<forall>t \<in> set (tasks s). pc t = TRelease \<or> pc t = TDone \<longrightarrow> ret t \<noteq> None)
       \<and> (fatalExits cfg \<longrightarrow>
            (\<forall>t \<in> set (tasks s). pc t = TRelease \<or> pc t = TDone \<longrightarrow> ret t = Some None))
       \<and> (\<forall>i s'. fire cfg s (Task i) = Some s' \<longrightarrow>
             (pc (tasks s ! i) = TStart
                \<longrightarrow> pbTitle s' = Base (url (tasks s ! i)) \<and> pbCurrent s' = pbCurrent s)
           \<and> (pc (tasks s ! i) \<noteq> TStart \<longrightarrow> pbTitle s' = pbTitle s)
           \<and> (pc (tasks s ! i) = TReport \<and> halted s' = None \<longrightarrow> pbCurrent s' = Suc (pbCurrent s))
           \<and> (pc (tasks s ! i) \<noteq> TReport \<longrightarrow> pbCurrent s' = pbCurrent s))
       \<and> (\<forall>i. i < length (tasks s) \<and> halted s = None \<longrightarrow>
             (pc (tasks s ! i) = TStart
                \<longrightarrow> (\<exists>s'. fire cfg s (Task i) = Some s' \<and> halted s' = None
                        \<and> pbTitle s' = Base (url (tasks s ! i)) \<and> pc (tasks s' ! i) = TDownload))
           \<and> (pc (tasks s ! i) = TDownload \<and> \<not> hangs cfg i
                \<longrightarrow> (\<exists>s'. fire cfg s (Task i) = Some s' \<and> pc (tasks s' ! i) = TReport
                        \<and> ret (tasks s' ! i)
                            = Some (fst (downloadFile (answers cfg i) (url (tasks s ! i))
                                           (outputDir cfg) s))))
           \<and> (pc (tasks s ! i) = TReport \<and> ret (tasks s ! i) = Some None
                \<longrightarrow> (\<exists>s'. fire cfg s (Task i) = Some s' \<and> halted s' = None
                        \<and> pbCurrent s' = Suc (pbCurrent s) \<and> pc (tasks s' ! i) = TRelease))
           \<and> (pc (tasks s ! i) = TReport \<and> ret (tasks s ! i) \<noteq> Some None \<and> fatalExits cfg
                \<longrightarrow> (\<exists>s'. fire cfg s (Task i) = Some s' \<and> halted s' = Some FatalExit
                        \<and> pbCurrent s' = pbCurrent s \<and> pc (tasks s' ! i) = TReport))
           \<and> (pc (tasks s ! i) = TReport \<and> ret (tasks s ! i) \<noteq> Some None \<and> \<not> fatalExits cfg
                \<longrightarrow> (\<exists>s'. fire cfg s (Task i) = Some s' \<and> halted s' = None
                        \<and> pbCurrent s' = Suc (pbCurrent s) \<and> pc (tasks s' ! i) = TRelease)))"
proof -
  note iv = inv_reachable [OF assms]
  then have g: "invGuard cfg s" and r: "invRet s" and p: "invProgress cfg s"
    by (simp_all add: inv_def)
  have 1: "pbCurrent s = advanced s" using p by (simp add: invProgress_def)
  have 2: "\<forall>t \<in> set (tasks s). pc t = TRelease \<or> pc t = TDone \<longrightarrow> ret t \<noteq> None"
    using r unfolding invRet_def by auto
  have 3: "fatalExits cfg \<longrightarrow>
            (\<forall>t \<in> set (tasks s). pc t = TRelease \<or> pc t = TDone \<longrightarrow> ret t = Some None)"
    using p by (simp add: invProgress_def)
  have 4: "\<forall>i s'. fire cfg s (Task i) = Some s' \<longrightarrow>
             (pc (tasks s ! i) = TStart
                \<longrightarrow> pbTitle s' = Base (url (tasks s ! i)) \<and> pbCurrent s' = pbCurrent s)
           \<and> (pc (tasks s ! i) \<noteq> TStart \<longrightarrow> pbTitle s' = pbTitle s)
           \<and> (pc (tasks s ! i) = TReport \<and> halted s' = None \<longrightarrow> pbCurrent s' = Suc (pbCurrent s))
           \<and> (pc (tasks s ! i) \<noteq> TReport \<longrightarrow> pbCurrent s' = pbCurrent s)"
  proof (intro allI impI)
    fix i s' assume f: "fire cfg s (Task i) = Some s'"
    then have h: "halted s = None" and t: "taskStep cfg s i = Some s'"
      by (simp_all add: fire_def split: if_splits)
    from task_progress_step [OF g t] h
    show "(pc (tasks s ! i) = TStart
                \<longrightarrow> pbTitle s' = Base (url (tasks s ! i)) \<and> pbCurrent s' = pbCurrent s)
           \<and> (pc (tasks s ! i) \<noteq> TStart \<longrightarrow> pbTitle s' = pbTitle s)
           \<and> (pc (tasks s ! i) = TReport \<and> halted s' = None \<longrightarrow> pbCurrent s' = Suc (pbCurrent s))
           \<and> (pc (tasks s ! i) \<noteq> TReport \<longrightarrow> pbCurrent s' = pbCurrent s)"
      by simp
  qed
  have 5: "\<forall>i. i < length (tasks s) \<and> halted s = None \<longrightarrow>
             (pc (tasks s ! i) = TStart
                \<longrightarrow> (\<exists>s'. fire cfg s (Task i) = Some s' \<and> halted s' = None
                        \<and> pbTitle s' = Base (url (tasks s ! i)) \<and> pc (tasks s' ! i) = TDownload))
           \<and> (pc (tasks s ! i) = TDownload \<and> \<not> hangs cfg i
                \<longrightarrow> (\<exists>s'. fire cfg s (Task i) = Some s' \<and> pc (tasks s' ! i) = TReport
                        \<and> ret (tasks s' ! i)
                            = Some (fst (downloadFile (answers cfg i) (url (tasks s ! i))
                                           (outputDir cfg) s))))
           \<and> (pc (tasks s ! i) = TReport \<and> ret (tasks s ! i) = Some None
                \<longrightarrow> (\<exists>s'. fire cfg s (Task i) = Some s' \<and> halted s' = None
                        \<and> pbCurrent s' = Suc (pbCurrent s) \<and> pc (tasks s' ! i) = TRelease))
           \<and> (pc (tasks s ! i) = TReport \<and> ret (tasks s ! i) \<noteq> Some None \<and> fatalExits cfg
                \<longrightarrow> (\<exists>s'. fire cfg s (Task i) = Some s' \<and> halted s' = Some FatalExit
                        \<and> pbCurrent s' = pbCurrent s \<and> pc (tasks s' ! i) = TReport))
           \<and> (pc (tasks s ! i) = TReport \<and> ret (tasks s ! i) \<noteq> Some None \<and> \<not> fatalExits cfg
                \<longrightarrow> (\<exists>s'. fire cfg s (Task i) = Some s' \<and> halted s' = None
                        \<and> pbCurrent s' = Suc (pbCurrent s) \<and> pc (tasks s' ! i) = TRelease))"
    using task_progress_enabled [OF r, of _ cfg] by blast
  from 1 2 3 4 5 show ?thesis by blast
qed

theorem C9_progress_indicator_witness:
  "\<exists>s s'. exec (exampleConfig (listFile twoUrls) 2 allOk True)
             (initial (exampleConfig (listFile twoUrls) 2 allOk True))
             [Main, Main, Main, Main, Main, Main, Task 0, Task 1, Task 0] = Some s
         \<and> fire (exampleConfig (listFile twoUrls) 2 allOk True) s (Task 0) = Some s'
         \<and> pbCurrent s = 0 \<and> pbCurrent s' = 1 \<and> pbTitle s' = ''b'' \<and> halted s' = None"
proof -
  let ?cfg = "exampleConfig (listFile twoUrls) 2 allOk True"
  let ?sched = "[Main, Main, Main, Main, Main, Main, Task 0, Task 1, Task 0]"
  have "observe (\<lambda>s. (map pc (tasks s), map ret (tasks s), pbTitle s, halted s)) ?cfg ?sched
        = Some ([TReport, TDownload], [Some None, None], ''b'', None)"
    by (simp add: model_defs example_defs twoUrls_def)
  then obtain s where e: "exec ?cfg (initial ?cfg) ?sched = Some s"
    and t: "map pc (tasks s) = [TReport, TDownload]" "map ret (tasks s) = [Some None, None]"
      "pbTitle s = ''b''" "halted s = None"
    by (auto simp: observe_def)
  from t(1) have l: "0 < length (tasks s)" by (cases "tasks s") simp_all
  from t(1,2) l have r: "pc (tasks s ! 0) = TReport" "ret (tasks s ! 0) = Some None"
    by (cases "tasks s"; simp)+
  have z: "advanced s = 0" using t(1)
    by (cases "tasks s"; cases "tl (tasks s)") (auto simp: advanced_def)
  note c9 = C9_progress_indicator [OF e]
  from c9 have a: "pbCurrent s = advanced s" by blast
  from c9 l t(4) r
  obtain s' where f: "fire ?cfg s (Task 0) = Some s'" and h: "halted s' = None"
    and c: "pbCurrent s' = Suc (pbCurrent s)"
    by blast
  from c9 f r(1) have "pbTitle s' = pbTitle s"
    by (metis tpc.distinct(3))
  with e f h c a z t(3) show ?thesis by auto
qed

text \<open>
  C9 as stated fails. With two downloads in flight, the bar advances for the first URL
  while its label is the name of the second; the label of a URL is set before its
  transfer has begun. A failed item does not advance the bar where the \<open>Fatal\<close> printer
  terminates the program. And the Action can return after the only transfer has
  succeeded and before the bar has advanced.
\<close>

theorem C9_counterexample:
  "observe pbCurrent (exampleConfig (listFile twoUrls) 2 allOk True)
     [Main, Main, Main, Main, Main, Main, Task 0, Task 1, Task 0, Task 0] = Some 1
   \<and> observe (map pc \<circ> tasks) (exampleConfig (listFile twoUrls) 2 allOk True)
     [Main, Main, Main, Main, Main, Main, Task 0, Task 1, Task 0, Task 0]
       = Some [TRelease, TDownload]
   \<and> observe pbTitle (exampleConfig (listFile twoUrls) 2 allOk True)
     [Main, Main, Main, Main, Main, Main, Task 0, Task 1, Task 0, Task 0] = Some ''b''
   \<and> Base ''http://h/a'' = ''a''
   \<and> observe pbTitle (exampleConfig (listFile twoUrls) 2 allOk True)
     [Main, Main, Main, Main, Main, Main, Task 0] = Some ''a''
   \<and> observe (map ret \<circ> tasks) (exampleConfig (listFile twoUrls) 2 allOk True)
     [Main, Main, Main, Main, Main, Main, Task 0] = Some [None, None]
   \<and> observe pbCurrent (exampleConfig (listFile oneUrl) 3 allFail True)
     [Main, Main, Main, Main, Task 0, Task 0, Task 0] = Some 0
   \<and> observe halted (exampleConfig (listFile oneUrl) 3 allFail True)
     [Main, Main, Main, Main, Task 0, Task 0, Task 0] = Some (Some FatalExit)
   \<and> observe main (exampleConfig (listFile oneUrl) 3 allOk True)
     [Main, Main, Main, Main, Task 0, Task 0, Main, Main] = Some (MReturned None)
   \<and> observe pbCurrent (exampleConfig (listFile oneUrl) 3 allOk True)
     [Main, Main, Main, Main, Task 0, Task 0, Main, Main] = Some 0"
  by (intro conjI; simp add: model_defs example_defs twoUrls_def oneUrl_def)

end
